theory Spec2Isabelle
  imports Main "HOL-Library.Word"
begin

unbundle bit_operations_syntax

section \<open>Outcomes of kernel calls\<close>

text \<open>
  A kernel routine either returns or stops the machine. \<open>Panic msg\<close> is a call of
  \<open>panic(msg)\<close>; \<open>OutOfBounds\<close> is an array access outside the array, which C leaves
  undefined; \<open>Sleeps\<close> is a caller suspended in \<open>acquiresleep\<close> because another
  process holds the sleep lock.
\<close>

datatype fault = Panic string | OutOfBounds | Sleeps

section \<open>Physical memory allocator (kernel/kalloc.c)\<close>

text \<open>
  Addresses are \<open>uint64\<close>, reference counts are \<open>int\<close> (32-bit words read with
  \<open>sint\<close>). The page size is 4096 bytes (the allocator "allocates whole 4096-byte
  pages"). The linker symbol \<open>end\<close> and the constant \<open>PHYSTOP\<close> come from files that are
  not part of the sources, so they are parameters of the model.
\<close>

definition PGSIZE :: "64 word" where
  "PGSIZE = 4096"

record layout =
  kernel_end :: "64 word"
  phystop :: "64 word"

text \<open>
  \<open>freelist\<close> is the chain \<open>kmem.freelist\<close>, \<open>kmem.freelist->next\<close>, ... written as
  the list of page addresses, head first; the empty list is the null pointer.
  \<open>ref\<close> is \<open>kref.ref\<close>, one counter per page number. \<open>junk\<close> records, for a page,
  the byte of the last \<open>memset\<close> over the whole page.
\<close>

record kmem =
  freelist :: "64 word list"
  ref :: "32 word list"
  junk :: "64 word \<Rightarrow> 8 word option"

text \<open>\<open>int n = pa / PGSIZE\<close>: the quotient is converted to a 32-bit \<open>int\<close>.\<close>

definition pgindex :: "64 word \<Rightarrow> int" where
  "pgindex pa = sint (ucast (pa div PGSIZE) :: 32 word)"

text \<open>The slot \<open>kref.ref[n]\<close>, when \<open>n\<close> lies inside the array.\<close>

definition ref_slot :: "kmem \<Rightarrow> 64 word \<Rightarrow> nat option" where
  "ref_slot s pa =
     (let n = pgindex pa
      in if 0 \<le> n \<and> nat n < length (ref s) then Some (nat n) else None)"

definition increref :: "64 word \<Rightarrow> 32 word \<Rightarrow> kmem \<Rightarrow> fault + (kmem \<times> 32 word)" where
  "increref pa count s =
     (case ref_slot s pa of
        None \<Rightarrow> Inl OutOfBounds
      | Some n \<Rightarrow>
          let s1 = s\<lparr>ref := (ref s)[n := ref s ! n + count]\<rparr>;
              temp = ref s1 ! n
          in Inr (s1, temp))"

definition kfree :: "layout \<Rightarrow> 64 word \<Rightarrow> kmem \<Rightarrow> fault + kmem" where
  "kfree L pa s =
     (if pa mod PGSIZE \<noteq> 0 \<or> pa < kernel_end L \<or> phystop L \<le> pa
      then Inl (Panic ''kfree'')
      else case ref_slot s pa of
        None \<Rightarrow> Inl OutOfBounds
      | Some n \<Rightarrow>
          if sint (ref s ! n) \<le> 0
          then Inl (Panic (''Ref less than or equal 0!'' @ [CHR 0x0A]))
          else
            let s1 = s\<lparr>ref := (ref s)[n := ref s ! n - 1]\<rparr>;
                temp = ref s1 ! n
            in if 0 < sint temp then Inr s1
               else Inr (s1\<lparr>junk := (junk s1)(pa \<mapsto> 1),
                             freelist := pa # freelist s1\<rparr>))"

text \<open>
  \<open>kalloc\<close> returns the page address, or 0 (the null pointer) when the free list is
  empty. A chain whose head is the address 0 is the null pointer for \<open>if(r)\<close> as well.
\<close>

definition kalloc :: "kmem \<Rightarrow> fault + (kmem \<times> 64 word)" where
  "kalloc s =
     (case freelist s of
        [] \<Rightarrow> Inr (s, 0)
      | r # rest \<Rightarrow>
          if r = 0 then Inr (s, 0)
          else
            let s1 = s\<lparr>freelist := rest\<rparr>
            in (case ref_slot s1 r of
                  None \<Rightarrow> Inl OutOfBounds
                | Some n \<Rightarrow>
                    if ref s1 ! n \<noteq> 0 then Inl (Panic ''Alloc a existed page'')
                    else Inr (s1\<lparr>ref := (ref s1)[n := 1],
                                  junk := (junk s1)(r \<mapsto> 5)\<rparr>, r)))"

text \<open>
  Modelled from the spec: the macro \<open>PGROUNDUP\<close> (riscv.h) is not part of the sources;
  initialization visits "every page-aligned address in the supplied physical range",
  so the start is rounded up to the next multiple of the page size.
\<close>

definition PGROUNDUP :: "64 word \<Rightarrow> 64 word" where
  "PGROUNDUP a = (a + PGSIZE - 1) AND NOT (PGSIZE - 1)"

text \<open>
  The loop of \<open>freerange\<close>. The test \<open>p + PGSIZE <= pa_end\<close> is pointer arithmetic,
  which does not wrap around. The store \<open>kref.ref[p / PGSIZE] = 1\<close> indexes with the
  \<open>uint64\<close> quotient itself.
\<close>

function freerange_from :: "layout \<Rightarrow> 64 word \<Rightarrow> 64 word \<Rightarrow> kmem \<Rightarrow> fault + kmem" where
  "freerange_from L p pa_end s =
     (if unat p + unat PGSIZE \<le> unat pa_end
      then if unat (p div PGSIZE) < length (ref s)
           then case kfree L p (s\<lparr>ref := (ref s)[unat (p div PGSIZE) := 1]\<rparr>) of
                  Inl e \<Rightarrow> Inl e
                | Inr s' \<Rightarrow> freerange_from L (p + PGSIZE) pa_end s'
           else Inl OutOfBounds
      else Inr s)"
  by pat_completeness auto
termination
proof (relation "measure (\<lambda>(L, p, pa_end, s). unat pa_end - unat p)")
  show "wf (measure (\<lambda>(L, p, pa_end, s). unat pa_end - unat p))"
    by simp
next
  fix L :: layout and p pa_end :: "64 word" and s x2 :: kmem
  assume le: "unat p + unat PGSIZE \<le> unat pa_end"
  have pg: "unat PGSIZE = 4096"
    by (simp add: PGSIZE_def)
  have "unat pa_end < 2 ^ 64"
    using unsigned_less [of pa_end, where ?'a = nat] by simp
  with le pg have "unat p + 4096 < 2 ^ 64"
    by simp
  then have "unat (p + PGSIZE) = unat p + 4096"
    by (simp add: unat_word_ariths PGSIZE_def)
  with le pg show "((L, p + PGSIZE, pa_end, x2), (L, p, pa_end, s))
        \<in> measure (\<lambda>(L, p, pa_end, s). unat pa_end - unat p)"
    by simp
qed

definition freerange :: "layout \<Rightarrow> 64 word \<Rightarrow> 64 word \<Rightarrow> kmem \<Rightarrow> fault + kmem" where
  "freerange L pa_start pa_end s = freerange_from L (PGROUNDUP pa_start) pa_end s"

text \<open>
  Before \<open>kinit\<close> the statically allocated \<open>kmem\<close> and \<open>kref\<close> are all zero:
  an empty free list and \<open>PHYSTOP / PGSIZE\<close> counters equal to 0.
\<close>

definition kmem0 :: "layout \<Rightarrow> kmem" where
  "kmem0 L = \<lparr>freelist = [], ref = replicate (unat (phystop L div PGSIZE)) 0,
              junk = (\<lambda>_. None)\<rparr>"

definition kinit :: "layout \<Rightarrow> fault + kmem" where
  "kinit L = freerange L (kernel_end L) (phystop L) (kmem0 L)"

subsection \<open>Sequences of allocator calls\<close>

datatype kop = Allocate | Free "64 word" | AddReference "64 word" "32 word"

definition kstep :: "layout \<Rightarrow> kop \<Rightarrow> kmem \<Rightarrow> fault + kmem" where
  "kstep L op s =
     (case op of
        Allocate \<Rightarrow> (case kalloc s of Inl e \<Rightarrow> Inl e | Inr (s', r) \<Rightarrow> Inr s')
      | Free pa \<Rightarrow> kfree L pa s
      | AddReference pa d \<Rightarrow>
          (case increref pa d s of Inl e \<Rightarrow> Inl e | Inr (s', n) \<Rightarrow> Inr s'))"

text \<open>A fatal call stops the machine, so the calls after it do not run.\<close>

fun krun :: "layout \<Rightarrow> kop list \<Rightarrow> kmem \<Rightarrow> fault + kmem" where
  "krun L [] s = Inr s"
| "krun L (op # ops) s =
     (case kstep L op s of Inl e \<Rightarrow> Inl e | Inr s' \<Rightarrow> krun L ops s')"

text \<open>The two properties of a state of the allocator.\<close>

definition refs_nonneg :: "kmem \<Rightarrow> bool" where
  "refs_nonneg s = (\<forall>r \<in> set (ref s). 0 \<le> sint r)"

definition free_unreferenced :: "kmem \<Rightarrow> bool" where
  "free_unreferenced s =
     (\<forall>pa \<in> set (freelist s).
        case ref_slot s pa of None \<Rightarrow> False | Some n \<Rightarrow> ref s ! n = 0)"

text \<open>
  A call \<open>increref(pa, d)\<close> is well behaved in a state when the page has a counter, the
  page is not on the free list, and the adjusted count is a non-negative \<open>int\<close>.
\<close>

definition addref_ok :: "64 word \<Rightarrow> 32 word \<Rightarrow> kmem \<Rightarrow> bool" where
  "addref_ok pa d s =
     (case ref_slot s pa of
        None \<Rightarrow> False
      | Some n \<Rightarrow>
          (\<forall>q \<in> set (freelist s). ref_slot s q \<noteq> Some n) \<and>
          0 \<le> sint (ref s ! n) + sint d \<and> sint (ref s ! n) + sint d < 2 ^ 31)"

fun disciplined :: "layout \<Rightarrow> kop list \<Rightarrow> kmem \<Rightarrow> bool" where
  "disciplined L [] s = True"
| "disciplined L (op # ops) s =
     ((case op of AddReference pa d \<Rightarrow> addref_ok pa d s | _ \<Rightarrow> True) \<and>
      (case kstep L op s of Inl e \<Rightarrow> True | Inr s' \<Rightarrow> disciplined L ops s'))"

text \<open>The pages of the free list have pairwise different counters.\<close>

definition kinv :: "kmem \<Rightarrow> bool" where
  "kinv s = (refs_nonneg s \<and> free_unreferenced s \<and> distinct (map pgindex (freelist s)))"

text \<open>
  While \<open>freerange\<close> sweeps upwards and has reached \<open>p\<close>, every counter is 0 and the
  free list holds pages below \<open>p\<close>, each with the counter of its own page number.
\<close>

definition sweeping :: "64 word \<Rightarrow> kmem \<Rightarrow> bool" where
  "sweeping p s =
     ((\<forall>r \<in> set (ref s). r = 0) \<and>
      (\<forall>q \<in> set (freelist s).
         ref_slot s q = Some (unat (q div PGSIZE)) \<and> unat (q div PGSIZE) < unat (p div PGSIZE)) \<and>
      distinct (map pgindex (freelist s)))"

text \<open>
  Run \<open>ops\<close> from the state that \<open>kinit\<close> leaves.
\<close>

definition kafter :: "layout \<Rightarrow> kop list \<Rightarrow> fault + kmem" where
  "kafter L ops = (case kinit L of Inl e \<Rightarrow> Inl e | Inr s0 \<Rightarrow> krun L ops s0)"

declare freerange_from.simps [simp del]

text \<open>
  A layout is sane when \<open>PHYSTOP\<close> is page aligned and the page numbers below it fit
  an \<open>int\<close>. A small machine for examples: page 0 is unused, the kernel image ends at
  0x1000, and the pages 0x1000 and 0x2000 are handed to the allocator.
\<close>

definition layout_ok :: "layout \<Rightarrow> bool" where
  "layout_ok L = (phystop L mod PGSIZE = 0 \<and> phystop L \<le> 2 ^ 43)"

definition two_pages :: layout where
  "two_pages = \<lparr>kernel_end = 0x1000, phystop = 0x3000\<rparr>"

section \<open>Buffer cache (bio.c, the copy with the global \<open>bcache.lock\<close>)\<close>

text \<open>
  The sources hold two copies of bio.c. This is the copy whose \<open>bget\<close> takes
  \<open>bcache.lock\<close> around the victim search, starts the search from \<open>minTicks = ~0\<close>
  and moves the victim into the target bucket, and whose \<open>brelse\<close> stamps the buffer
  with the current tick. The copy in kernel/bio.c has the same \<open>binit\<close>, \<open>bread\<close>,
  \<open>bwrite\<close>, \<open>bpin\<close> and \<open>bunpin\<close>; its \<open>bget\<close> searches without the global
  lock and never moves a buffer, and its \<open>brelse\<close> relinks the buffer instead of
  stamping it.

  The cache is modelled call by call: each function runs from its first to its last
  statement on the state it finds, so the spin locks do not appear. The kernel's tick
  counter \<open>ticks\<close> and the calling process are inputs of each call.
\<close>

text \<open>
  Modelled from the spec: \<open>struct buf\<close> (buf.h) is not part of the sources. A buffer
  has a validity flag, a device and a block number (\<open>uint\<close>, as the parameters of
  \<open>bget\<close>), a reference count, a last-used timestamp, an exclusive-use lock and a
  payload. The count and the timestamp are 32-bit machine words; the timestamp is
  unsigned, like the tick counter it is copied from. The exclusive-use lock is held by
  at most one process: \<open>holder\<close> is that process, if any. The payload is an opaque
  block.
\<close>

record 'd buf =
  valid :: "32 word"
  dev :: "32 word"
  blockno :: "32 word"
  refcnt :: "32 word"
  ticks :: "32 word"
  holder :: "nat option"
  data :: 'd

datatype io = DiskRead "32 word" "32 word" | DiskWrite "32 word" "32 word"

text \<open>
  \<open>bufs\<close> is the array \<open>bcache.buf\<close>; buffers are named by their index in it.
  \<open>buckets\<close> has one entry per bucket: the buffers linked into the bucket's circular
  list, in the order of the \<open>next\<close> pointers starting after the bucket's head.
  \<open>disk\<close> is the content of the devices and \<open>io_log\<close> the requests made to the driver
  so far, oldest first.
\<close>

record 'd bcache =
  bufs :: "'d buf list"
  buckets :: "nat list list"
  disk :: "32 word \<times> 32 word \<Rightarrow> 'd"
  io_log :: "io list"

definition NBUCKETS :: nat where
  "NBUCKETS = 13"

text \<open>
  \<open>int haskBlock(int block) { return block % NBUCKETS; }\<close>: the block number is
  converted to \<open>int\<close>, and C's remainder takes the sign of the dividend.
\<close>

definition haskBlock :: "32 word \<Rightarrow> int" where
  "haskBlock block =
     (let x = sint block
      in if 0 \<le> x then x mod int NBUCKETS else - ((- x) mod int NBUCKETS))"

text \<open>
  Statically allocated storage starts out as zeros: \<open>n\<close> buffers (\<open>NBUF\<close>, from a file
  that is not part of the sources) with all fields 0 and payload \<open>z\<close>.
\<close>

definition buf0 :: "'d \<Rightarrow> 'd buf" where
  "buf0 z = \<lparr>valid = 0, dev = 0, blockno = 0, refcnt = 0, ticks = 0, holder = None, data = z\<rparr>"

definition bcache0 :: "nat \<Rightarrow> 'd \<Rightarrow> (32 word \<times> 32 word \<Rightarrow> 'd) \<Rightarrow> 'd bcache" where
  "bcache0 n z d = \<lparr>bufs = replicate n (buf0 z), buckets = replicate NBUCKETS [],
                    disk = d, io_log = []\<rparr>"

text \<open>
  The second loop of \<open>binit\<close>: buffer \<open>i\<close> is inserted right after the head of the
  bucket of its current block number, its sleep lock is initialised and its timestamp
  set.
\<close>

fun binit_loop :: "32 word \<Rightarrow> nat list \<Rightarrow> 'd bcache \<Rightarrow> fault + 'd bcache" where
  "binit_loop now [] s = Inr s"
| "binit_loop now (i # rest) s =
     (let hashId = haskBlock (blockno (bufs s ! i))
      in if 0 \<le> hashId \<and> nat hashId < length (buckets s)
         then binit_loop now rest
                (s\<lparr>buckets := (buckets s)[nat hashId := i # buckets s ! nat hashId],
                   bufs := (bufs s)[i := (bufs s ! i)\<lparr>holder := None, ticks := now\<rparr>]\<rparr>)
         else Inl OutOfBounds)"

definition binit :: "32 word \<Rightarrow> 'd bcache \<Rightarrow> fault + 'd bcache" where
  "binit now s =
     binit_loop now [0..<length (bufs s)] (s\<lparr>buckets := replicate NBUCKETS []\<rparr>)"

text \<open>
  Modelled from the spec: the sleep lock (sleeplock.c) is not part of the sources. It is
  an exclusive lock: \<open>holdingsleep\<close> tells whether the process \<open>p\<close> holds the lock of
  buffer \<open>b\<close>, \<open>acquiresleep\<close> takes a free lock and suspends the caller otherwise,
  \<open>releasesleep\<close> frees the lock.
\<close>

definition holdingsleep :: "nat \<Rightarrow> nat \<Rightarrow> 'd bcache \<Rightarrow> bool" where
  "holdingsleep p b s = (holder (bufs s ! b) = Some p)"

definition acquiresleep :: "nat \<Rightarrow> nat \<Rightarrow> 'd bcache \<Rightarrow> fault + 'd bcache" where
  "acquiresleep p b s =
     (if holder (bufs s ! b) = None
      then Inr (s\<lparr>bufs := (bufs s)[b := (bufs s ! b)\<lparr>holder := Some p\<rparr>]\<rparr>)
      else Inl Sleeps)"

definition releasesleep :: "nat \<Rightarrow> 'd bcache \<Rightarrow> 'd bcache" where
  "releasesleep b s = s\<lparr>bufs := (bufs s)[b := (bufs s ! b)\<lparr>holder := None\<rparr>]\<rparr>"

text \<open>The loop "Is the block already cached?" over one bucket.\<close>

fun find_cached :: "'d buf list \<Rightarrow> 32 word \<Rightarrow> 32 word \<Rightarrow> nat list \<Rightarrow> nat option" where
  "find_cached bs d bn [] = None"
| "find_cached bs d bn (b # rest) =
     (if dev (bs ! b) = d \<and> blockno (bs ! b) = bn then Some b
      else find_cached bs d bn rest)"

text \<open>
  The victim search. The accumulator is \<open>(bMin, minTicks, minId)\<close>; \<open>minTicks\<close> starts
  as \<open>~0\<close> and the comparison with the unsigned timestamp is unsigned.
\<close>

type_synonym victim = "nat option \<times> 32 word \<times> nat"

fun scan_bucket :: "'d buf list \<Rightarrow> nat \<Rightarrow> nat list \<Rightarrow> victim \<Rightarrow> victim" where
  "scan_bucket bs i [] acc = acc"
| "scan_bucket bs i (b # rest) (bMin, minTicks, minId) =
     (if refcnt (bs ! b) = 0 \<and> ticks (bs ! b) < minTicks
      then scan_bucket bs i rest (Some b, ticks (bs ! b), i)
      else scan_bucket bs i rest (bMin, minTicks, minId))"

fun scan_buckets :: "'d buf list \<Rightarrow> nat list list \<Rightarrow> nat list \<Rightarrow> victim \<Rightarrow> victim" where
  "scan_buckets bs bks [] acc = acc"
| "scan_buckets bs bks (i # rest) acc =
     scan_buckets bs bks rest (scan_bucket bs i (bks ! i) acc)"

definition find_victim :: "'d bcache \<Rightarrow> victim" where
  "find_victim s = scan_buckets (bufs s) (buckets s) [0..<NBUCKETS] (None, NOT 0, 0)"

text \<open>A hit: \<open>b->refcnt++\<close>, then the caller takes the sleep lock.\<close>

definition bget_hit :: "nat \<Rightarrow> nat \<Rightarrow> 'd bcache \<Rightarrow> fault + ('d bcache \<times> nat)" where
  "bget_hit p b s =
     (case acquiresleep p b
             (s\<lparr>bufs := (bufs s)[b := (bufs s ! b)\<lparr>refcnt := refcnt (bufs s ! b) + 1\<rparr>]\<rparr>) of
        Inl e \<Rightarrow> Inl e
      | Inr s' \<Rightarrow> Inr (s', b))"

text \<open>
  A miss with victim \<open>b\<close> found in bucket \<open>minId\<close>: the buffer is rebound, and moved to
  the front of the target bucket when that is another bucket.
\<close>

definition rebind :: "32 word \<Rightarrow> 32 word \<Rightarrow> 32 word \<Rightarrow> nat \<Rightarrow> nat \<Rightarrow> nat \<Rightarrow> 'd bcache \<Rightarrow> 'd bcache" where
  "rebind now d bn hashId minId b s =
     (let s1 = s\<lparr>bufs := (bufs s)[b := (bufs s ! b)\<lparr>dev := d, blockno := bn, valid := 0,
                                                      refcnt := 1, ticks := now\<rparr>]\<rparr>
      in if minId \<noteq> hashId
         then let s2 = s1\<lparr>buckets := (buckets s1)[minId := remove1 b (buckets s1 ! minId)]\<rparr>
              in s2\<lparr>buckets := (buckets s2)[hashId := b # buckets s2 ! hashId]\<rparr>
         else s1)"

definition bget :: "nat \<Rightarrow> 32 word \<Rightarrow> 32 word \<Rightarrow> 32 word \<Rightarrow> 'd bcache \<Rightarrow> fault + ('d bcache \<times> nat)" where
  "bget p now d bn s =
     (let hashId = haskBlock bn
      in if \<not> (0 \<le> hashId \<and> nat hashId < length (buckets s)) then Inl OutOfBounds
         else
           (case find_cached (bufs s) d bn (buckets s ! nat hashId) of
              Some b \<Rightarrow> bget_hit p b s
            | None \<Rightarrow>
                (case find_cached (bufs s) d bn (buckets s ! nat hashId) of
                   Some b \<Rightarrow> bget_hit p b s
                 | None \<Rightarrow>
                     (case find_victim s of
                        (None, minTicks, minId) \<Rightarrow> Inl (Panic ''bget: no buffers'')
                      | (Some b, minTicks, minId) \<Rightarrow>
                          (case acquiresleep p b (rebind now d bn (nat hashId) minId b s) of
                             Inl e \<Rightarrow> Inl e
                           | Inr s' \<Rightarrow> Inr (s', b))))))"

text \<open>
  Modelled from the spec: the disk driver is not part of the sources. Its calls are
  synchronous: \<open>virtio_disk_rw(b, 0)\<close> reads the block of the buffer from the device
  into the payload, \<open>virtio_disk_rw(b, 1)\<close> writes the payload to the device.
\<close>

definition virtio_disk_rw :: "nat \<Rightarrow> bool \<Rightarrow> 'd bcache \<Rightarrow> 'd bcache" where
  "virtio_disk_rw b write s =
     (let key = (dev (bufs s ! b), blockno (bufs s ! b))
      in if write
         then s\<lparr>disk := (disk s)(key := data (bufs s ! b)),
                 io_log := io_log s @ [DiskWrite (fst key) (snd key)]\<rparr>
         else s\<lparr>bufs := (bufs s)[b := (bufs s ! b)\<lparr>data := disk s key\<rparr>],
                 io_log := io_log s @ [DiskRead (fst key) (snd key)]\<rparr>)"

definition bread :: "nat \<Rightarrow> 32 word \<Rightarrow> 32 word \<Rightarrow> 32 word \<Rightarrow> 'd bcache \<Rightarrow> fault + ('d bcache \<times> nat)" where
  "bread p now d bn s =
     (case bget p now d bn s of
        Inl e \<Rightarrow> Inl e
      | Inr (s1, b) \<Rightarrow>
          if valid (bufs s1 ! b) = 0
          then let s2 = virtio_disk_rw b False s1
               in Inr (s2\<lparr>bufs := (bufs s2)[b := (bufs s2 ! b)\<lparr>valid := 1\<rparr>]\<rparr>, b)
          else Inr (s1, b))"

text \<open>
  The remaining calls take a pointer to a buffer: an index below the number of buffers.
  \<open>brelse\<close>, \<open>bpin\<close> and \<open>bunpin\<close> index the array of the \<open>NBUCKETS\<close> bucket locks
  with the hash of the buffer's block number.
\<close>

definition bwrite :: "nat \<Rightarrow> nat \<Rightarrow> 'd bcache \<Rightarrow> fault + 'd bcache" where
  "bwrite p b s =
     (if \<not> b < length (bufs s) then Inl OutOfBounds
      else if \<not> holdingsleep p b s then Inl (Panic ''bwrite'')
      else Inr (virtio_disk_rw b True s))"

definition brelse :: "nat \<Rightarrow> 32 word \<Rightarrow> nat \<Rightarrow> 'd bcache \<Rightarrow> fault + 'd bcache" where
  "brelse p now b s =
     (if \<not> b < length (bufs s) then Inl OutOfBounds
      else if \<not> holdingsleep p b s then Inl (Panic ''brelse'')
      else
        let s1 = releasesleep b s;
            hashId = haskBlock (blockno (bufs s1 ! b))
        in if \<not> (0 \<le> hashId \<and> nat hashId < NBUCKETS) then Inl OutOfBounds
           else
             let s2 = s1\<lparr>bufs := (bufs s1)[b := (bufs s1 ! b)\<lparr>refcnt := refcnt (bufs s1 ! b) - 1\<rparr>]\<rparr>
             in if refcnt (bufs s2 ! b) = 0
                then Inr (s2\<lparr>bufs := (bufs s2)[b := (bufs s2 ! b)\<lparr>ticks := now\<rparr>]\<rparr>)
                else Inr s2)"

definition bpin :: "nat \<Rightarrow> 'd bcache \<Rightarrow> fault + 'd bcache" where
  "bpin b s =
     (if \<not> b < length (bufs s) then Inl OutOfBounds
      else
        let hashId = haskBlock (blockno (bufs s ! b))
        in if \<not> (0 \<le> hashId \<and> nat hashId < NBUCKETS) then Inl OutOfBounds
           else Inr (s\<lparr>bufs := (bufs s)[b := (bufs s ! b)\<lparr>refcnt := refcnt (bufs s ! b) + 1\<rparr>]\<rparr>))"

definition bunpin :: "nat \<Rightarrow> 'd bcache \<Rightarrow> fault + 'd bcache" where
  "bunpin b s =
     (if \<not> b < length (bufs s) then Inl OutOfBounds
      else
        let hashId = haskBlock (blockno (bufs s ! b))
        in if \<not> (0 \<le> hashId \<and> nat hashId < NBUCKETS) then Inl OutOfBounds
           else Inr (s\<lparr>bufs := (bufs s)[b := (bufs s ! b)\<lparr>refcnt := refcnt (bufs s ! b) - 1\<rparr>]\<rparr>))"

subsection \<open>Sequences of cache calls\<close>

text \<open>
  Each call carries the calling process and the tick at which it runs, where the code
  reads them. A panic stops the machine; a caller that has to sleep ends the sequential
  run as well, since what happens next depends on the other processes.
\<close>

datatype bop =
    Acquire nat "32 word" "32 word" "32 word"
  | Release nat "32 word" nat
  | Pin nat
  | Unpin nat

definition bstep :: "bop \<Rightarrow> 'd bcache \<Rightarrow> fault + 'd bcache" where
  "bstep op s =
     (case op of
        Acquire p now d bn \<Rightarrow>
          (case bget p now d bn s of Inl e \<Rightarrow> Inl e | Inr (s', b) \<Rightarrow> Inr s')
      | Release p now b \<Rightarrow> brelse p now b s
      | Pin b \<Rightarrow> bpin b s
      | Unpin b \<Rightarrow> bunpin b s)"

fun brun :: "bop list \<Rightarrow> 'd bcache \<Rightarrow> fault + 'd bcache" where
  "brun [] s = Inr s"
| "brun (op # ops) s = (case bstep op s of Inl e \<Rightarrow> Inl e | Inr s' \<Rightarrow> brun ops s')"




subsection \<open>Bindings and device reads\<close>

text \<open>
  Sequences of all six calls of the cache, \<open>bread\<close> and \<open>bwrite\<close> included. As
  before, a panic or a sleeping caller ends the run.
\<close>

datatype call =
    Bget nat "32 word" "32 word" "32 word"
  | Bread nat "32 word" "32 word" "32 word"
  | Bwrite nat nat
  | Brelse nat "32 word" nat
  | Bpin nat
  | Bunpin nat

definition cstep :: "call \<Rightarrow> 'd bcache \<Rightarrow> fault + 'd bcache" where
  "cstep c s =
     (case c of
        Bget p now d bn \<Rightarrow>
          (case bget p now d bn s of Inl e \<Rightarrow> Inl e | Inr (s', b) \<Rightarrow> Inr s')
      | Bread p now d bn \<Rightarrow>
          (case bread p now d bn s of Inl e \<Rightarrow> Inl e | Inr (s', b) \<Rightarrow> Inr s')
      | Bwrite p b \<Rightarrow> bwrite p b s
      | Brelse p now b \<Rightarrow> brelse p now b s
      | Bpin b \<Rightarrow> bpin b s
      | Bunpin b \<Rightarrow> bunpin b s)"

fun crun :: "call list \<Rightarrow> 'd bcache \<Rightarrow> fault + 'd bcache" where
  "crun [] s = Inr s"
| "crun (c # cs) s = (case cstep c s of Inl e \<Rightarrow> Inl e | Inr s' \<Rightarrow> crun cs s')"

text \<open>The number of reads of block \<open>bn\<close> of device \<open>d\<close> that the driver was asked for.\<close>

definition reads_of :: "32 word \<Rightarrow> 32 word \<Rightarrow> io list \<Rightarrow> nat" where
  "reads_of d bn log = length (filter (\<lambda>e. e = DiskRead d bn) log)"

text \<open>
  Buffer \<open>b\<close> holds the binding of \<open>(d, bn)\<close>: it is the buffer that the lookup of
  \<open>bget\<close> finds for that block.
\<close>

definition bound_to :: "'d bcache \<Rightarrow> nat \<Rightarrow> 32 word \<Rightarrow> 32 word \<Rightarrow> bool" where
  "bound_to s b d bn =
     (0 \<le> haskBlock bn \<and>
      find_cached (bufs s) d bn (buckets s ! nat (haskBlock bn)) = Some b)"

text \<open>
  Buffer \<open>b\<close> is not rebound by any call of the sequence: after every call it still
  has the device and the block number it had before the call.
\<close>

fun stays_bound :: "nat \<Rightarrow> call list \<Rightarrow> 'd bcache \<Rightarrow> bool" where
  "stays_bound b [] s = True"
| "stays_bound b (c # cs) s =
     (case cstep c s of
        Inl e \<Rightarrow> True
      | Inr s' \<Rightarrow>
          dev (bufs s' ! b) = dev (bufs s ! b) \<and> blockno (bufs s' ! b) = blockno (bufs s ! b) \<and>
          stays_bound b cs s')"

text \<open>The read that a buffer still owes the device: 1 while it is not valid.\<close>

definition pending :: "'d bcache \<Rightarrow> nat \<Rightarrow> nat" where
  "pending s b = (if valid (bufs s ! b) = 0 then 1 else 0)"

text \<open>
  The order in which the victim search meets the buffers: bucket 0 first, each bucket
  from the front.
\<close>

definition scan_order :: "'d bcache \<Rightarrow> nat list" where
  "scan_order s = concat (map (\<lambda>i. buckets s ! i) [0..<NBUCKETS])"

text \<open>
  The victim that the specification asks for, written from its words: among the
  buffers of \<open>xs\<close> with reference count 0 the one with the least timestamp, and among
  several of those the first in \<open>xs\<close>; \<open>None\<close> when no buffer of \<open>xs\<close> has count 0.
\<close>

fun lru_first :: "'d buf list \<Rightarrow> nat list \<Rightarrow> nat option" where
  "lru_first bs [] = None"
| "lru_first bs (x # xs) =
     (case lru_first bs xs of
        None \<Rightarrow> if refcnt (bs ! x) = 0 then Some x else None
      | Some v \<Rightarrow>
          if refcnt (bs ! x) = 0 \<and> ticks (bs ! x) \<le> ticks (bs ! v) then Some x else Some v)"

text \<open>
  A well-formed cache has one list per bucket, and the lists name buffers of the pool.
\<close>

definition bcache_wf :: "'d bcache \<Rightarrow> bool" where
  "bcache_wf s =
     (length (buckets s) = NBUCKETS \<and>
      (\<forall>bk \<in> set (buckets s). \<forall>b \<in> set bk. b < length (bufs s)))"

text \<open>Every buffer of the pool is linked into some bucket.\<close>

definition pool_linked :: "'d bcache \<Rightarrow> bool" where
  "pool_linked s = (\<forall>j < length (bufs s). j \<in> set (scan_order s))"

text \<open>
  A cache of two buffers right after \<open>binit\<close> at tick 0, with a payload of type
  \<open>nat\<close>, for examples.
\<close>

definition blank_disk :: "32 word \<times> 32 word \<Rightarrow> nat" where
  "blank_disk = (\<lambda>_. 0)"

definition cache2 :: "nat bcache" where
  "cache2 = \<lparr>bufs = [buf0 0, buf0 0],
              buckets = [ [1, 0], [], [], [], [], [], [], [], [], [], [], [], []],
              disk = blank_disk, io_log = []\<rparr>"

text \<open>
  The same cache after process 7 has read block 1 of device 1 at tick 5, and after the
  buffer has then been released, read again by process 8, pinned, written, released and
  unpinned while process 9 got block 14 of device 1 in buffer 0.
\<close>

definition cache2_loaded :: "nat bcache" where
  "cache2_loaded =
     \<lparr>bufs = [buf0 0,
              \<lparr>valid = 1, dev = 1, blockno = 1, refcnt = 1, ticks = 5, holder = Some 7, data = 0\<rparr>],
      buckets = [ [0], [1], [], [], [], [], [], [], [], [], [], [], []],
      disk = blank_disk, io_log = [DiskRead 1 1]\<rparr>"

definition cache2_busy :: "nat bcache" where
  "cache2_busy =
     \<lparr>bufs = [\<lparr>valid = 0, dev = 1, blockno = 14, refcnt = 1, ticks = 9, holder = Some 9, data = 0\<rparr>,
              \<lparr>valid = 1, dev = 1, blockno = 1, refcnt = 0, ticks = 6, holder = None, data = 0\<rparr>],
      buckets = [ [], [0, 1], [], [], [], [], [], [], [], [], [], [], []],
      disk = blank_disk((1, 1) := 0), io_log = [DiskRead 1 1, DiskWrite 1 1]\<rparr>"


text \<open>
  The two-buffer cache after both buffers were used and released during the tick
  \<open>0xFFFFFFFF\<close>.
\<close>

definition cache2_stale :: "nat bcache" where
  "cache2_stale =
     \<lparr>bufs = [\<lparr>valid = 0, dev = 1, blockno = 2, refcnt = 0, ticks = - 1, holder = None, data = 0\<rparr>,
              \<lparr>valid = 0, dev = 1, blockno = 1, refcnt = 0, ticks = - 1, holder = None, data = 0\<rparr>],
      buckets = [ [], [1], [0], [], [], [], [], [], [], [], [], [], []],
      disk = blank_disk, io_log = []\<rparr>"

section \<open>Properties of the allocator\<close>

lemma sint_dec:
  fixes r :: "32 word"
  assumes "0 < sint r"
  shows "sint (r - 1) = sint r - 1"
proof -
  have b: "sint r < 2 ^ 31"
    using sint_lt [of r] by simp
  have "sint (r - 1) = signed_take_bit 31 (sint r - sint (1 :: 32 word))"
    by (simp add: sint_word_ariths)
  also have "\<dots> = signed_take_bit 31 (sint r - 1)"
    by simp
  also have "\<dots> = sint r - 1"
    using assms b by (intro signed_take_bit_int_eq_self) simp_all
  finally show ?thesis .
qed

lemma sint_add_in_range:
  fixes r d :: "32 word"
  assumes "0 \<le> sint r + sint d" and "sint r + sint d < 2 ^ 31"
  shows "sint (r + d) = sint r + sint d"
proof -
  have "sint (r + d) = signed_take_bit 31 (sint r + sint d)"
    by (simp add: sint_word_ariths)
  also have "\<dots> = sint r + sint d"
    using assms by (intro signed_take_bit_int_eq_self) simp_all
  finally show ?thesis .
qed

lemma pgindex_in_range:
  assumes "pa < q" and "q \<le> 2 ^ 43"
  shows "pgindex pa = int (unat (pa div PGSIZE))"
proof -
  have "unat pa < 2 ^ 43"
    using assms by (simp add: word_less_nat_alt word_le_nat_alt)
  then have d: "unat (pa div PGSIZE) < 2 ^ 31"
    by (simp add: unat_div PGSIZE_def)
  have e: "uint (pa div PGSIZE) = int (unat (pa div PGSIZE))"
    by simp
  from d have "int (unat (pa div PGSIZE)) < int (2 ^ 31)"
    by (simp only: of_nat_less_iff)
  then have d': "uint (pa div PGSIZE) < 2 ^ 31"
    unfolding e by simp
  have "uint (ucast (pa div PGSIZE) :: 32 word) = take_bit 32 (uint (pa div PGSIZE))"
    by (simp add: unsigned_ucast_eq)
  also have "\<dots> = uint (pa div PGSIZE)"
    using d' by (simp add: take_bit_int_eq_self)
  finally have u: "uint (ucast (pa div PGSIZE) :: 32 word) = uint (pa div PGSIZE)" .
  have "sint (ucast (pa div PGSIZE) :: 32 word) = signed_take_bit 31 (uint (pa div PGSIZE))"
    by (simp add: sint_uint u)
  also have "\<dots> = uint (pa div PGSIZE)"
  proof (rule signed_take_bit_int_eq_self)
    show "- (2 ^ 31) \<le> uint (pa div PGSIZE)"
      by (rule order_trans [of _ 0]) simp_all
    show "uint (pa div PGSIZE) < 2 ^ 31"
      by (rule d')
  qed
  finally show ?thesis
    unfolding pgindex_def e .
qed

lemma ref_slot_length: "length (ref s') = length (ref s) \<Longrightarrow> ref_slot s' pa = ref_slot s pa"
  by (simp add: ref_slot_def)

lemma ref_slot_bound: "ref_slot s pa = Some n \<Longrightarrow> n < length (ref s)"
  by (auto simp: ref_slot_def Let_def split: if_splits)

lemma ref_slot_pgindex: "ref_slot s pa = Some n \<Longrightarrow> ref_slot s q = Some m \<Longrightarrow> pgindex pa = pgindex q \<longleftrightarrow> n = m"
  by (auto simp: ref_slot_def Let_def split: if_splits)

lemma sint_zero_iff: "sint (r :: 32 word) = 0 \<longleftrightarrow> r = 0"
  using word_eq_iff_signed [of r 0, where ?'a = int] by simp

lemma kfree_kinv:
  assumes inv: "kinv s" and ok: "kfree L pa s = Inr s'"
  shows "kinv s'"
proof -
  from ok obtain n where slot: "ref_slot s pa = Some n" and pos: "0 < sint (ref s ! n)"
    by (auto simp: kfree_def split: if_splits option.splits)
  have n: "n < length (ref s)" using slot by (rule ref_slot_bound)
  let ?r = "ref s ! n - 1"
  have dec: "sint ?r = sint (ref s ! n) - 1" using pos by (rule sint_dec)
  have refs: "ref s' = (ref s)[n := ?r]"
    using ok slot pos by (auto simp: kfree_def Let_def split: if_splits)
  have fl: "freelist s' = (if 0 < sint ?r then freelist s else pa # freelist s)"
    using ok slot pos n by (auto simp: kfree_def Let_def split: if_splits)
  have slots: "\<And>q. ref_slot s' q = ref_slot s q"
    by (rule ref_slot_length) (simp add: refs)
  have old: "\<And>q m. q \<in> set (freelist s) \<Longrightarrow> \<exists>m. ref_slot s q = Some m \<and> m \<noteq> n \<and> ref s ! m = 0"
    using inv pos by (fastforce simp: kinv_def free_unreferenced_def split: option.splits)
  have 1: "refs_nonneg s'"
    using inv dec pos n unfolding kinv_def refs_nonneg_def refs
    by (auto simp: set_update_subset_insert dest!: subsetD [OF set_update_subset_insert])
  have 2: "free_unreferenced s'"
    unfolding free_unreferenced_def
  proof
    fix q assume q: "q \<in> set (freelist s')"
    show "case ref_slot s' q of None \<Rightarrow> False | Some k \<Rightarrow> ref s' ! k = 0"
    proof (cases "q \<in> set (freelist s)")
      case True
      from old [OF True] obtain m where "ref_slot s q = Some m" "m \<noteq> n" "ref s ! m = 0" by blast
      then show ?thesis by (simp add: slots refs)
    next
      case False
      with q fl have qp: "q = pa" and z: "\<not> 0 < sint ?r" by (auto split: if_splits)
      from z dec pos have "sint ?r = 0" by linarith
      then have "?r = 0" by (simp only: sint_zero_iff)
      then show ?thesis using qp slot n by (simp add: slots refs)
    qed
  qed
  have 3: "distinct (map pgindex (freelist s'))"
  proof (cases "0 < sint ?r")
    case True
    then show ?thesis using inv fl by (simp add: kinv_def)
  next
    case False
    have "pgindex pa \<notin> pgindex ` set (freelist s)"
    proof
      assume "pgindex pa \<in> pgindex ` set (freelist s)"
      then obtain q where q: "q \<in> set (freelist s)" and e: "pgindex pa = pgindex q" by auto
      from old [OF q] obtain m where m: "ref_slot s q = Some m" "m \<noteq> n" by blast
      with slot e show False using ref_slot_pgindex [OF slot m(1)] by simp
    qed
    then show ?thesis using inv fl False by (simp add: kinv_def)
  qed
  from 1 2 3 show ?thesis by (simp add: kinv_def)
qed


lemma kalloc_kinv:
  assumes inv: "kinv s" and ok: "kalloc s = Inr (s', r)"
  shows "kinv s'"
proof (cases "freelist s")
  case Nil
  with ok have "s' = s" by (simp add: kalloc_def)
  with inv show ?thesis by simp
next
  case (Cons h rest)
  show ?thesis
  proof (cases "h = 0")
    case True
    with ok Cons have "s' = s" by (simp add: kalloc_def)
    with inv show ?thesis by simp
  next
    case False
    from ok Cons False obtain n where slot: "ref_slot s h = Some n"
      by (auto simp: kalloc_def Let_def ref_slot_def split: option.splits if_splits)
    have n: "n < length (ref s)" using slot by (rule ref_slot_bound)
    have s': "s' = s\<lparr>freelist := rest, ref := (ref s)[n := 1], junk := (junk s)(h \<mapsto> 5)\<rparr>"
      using ok Cons False slot
      by (auto simp: kalloc_def Let_def ref_slot_def split: option.splits if_splits)
    have slots: "\<And>q. ref_slot s' q = ref_slot s q"
      by (rule ref_slot_length) (simp add: s')
    have 1: "refs_nonneg s'"
      using inv unfolding kinv_def refs_nonneg_def s'
      by (auto dest!: subsetD [OF set_update_subset_insert])
    have 2: "free_unreferenced s'"
      unfolding free_unreferenced_def
    proof
      fix q assume "q \<in> set (freelist s')"
      then have q: "q \<in> set rest" by (simp add: s')
      with inv Cons obtain m where m: "ref_slot s q = Some m" "ref s ! m = 0"
        by (fastforce simp: kinv_def free_unreferenced_def split: option.splits)
      from inv Cons q have "pgindex h \<noteq> pgindex q"
        by (auto simp: kinv_def)
      with ref_slot_pgindex [OF slot m(1)] have "n \<noteq> m" by simp
      with m show "case ref_slot s' q of None \<Rightarrow> False | Some k \<Rightarrow> ref s' ! k = 0"
        by (simp add: slots) (simp add: s')
    qed
    have 3: "distinct (map pgindex (freelist s'))"
      using inv Cons by (simp add: kinv_def s')
    from 1 2 3 show ?thesis by (simp add: kinv_def)
  qed
qed

lemma increref_kinv:
  assumes inv: "kinv s" and okd: "addref_ok pa d s" and ok: "increref pa d s = Inr (s', v)"
  shows "kinv s'"
proof -
  from okd obtain n where slot: "ref_slot s pa = Some n"
    and notfree: "\<forall>q \<in> set (freelist s). ref_slot s q \<noteq> Some n"
    and lo: "0 \<le> sint (ref s ! n) + sint d" and hi: "sint (ref s ! n) + sint d < 2 ^ 31"
    by (auto simp: addref_ok_def split: option.splits)
  have n: "n < length (ref s)" using slot by (rule ref_slot_bound)
  have s': "s' = s\<lparr>ref := (ref s)[n := ref s ! n + d]\<rparr>"
    using ok slot by (simp add: increref_def Let_def)
  have slots: "\<And>q. ref_slot s' q = ref_slot s q"
    by (rule ref_slot_length) (simp add: s')
  have v: "sint (ref s ! n + d) = sint (ref s ! n) + sint d"
    using lo hi by (rule sint_add_in_range)
  have 1: "refs_nonneg s'"
    using inv lo v unfolding kinv_def refs_nonneg_def s'
    by (auto dest!: subsetD [OF set_update_subset_insert])
  have 2: "free_unreferenced s'"
    unfolding free_unreferenced_def
  proof
    fix q assume "q \<in> set (freelist s')"
    then have q: "q \<in> set (freelist s)" by (simp add: s')
    with inv obtain m where m: "ref_slot s q = Some m" "ref s ! m = 0"
      by (fastforce simp: kinv_def free_unreferenced_def split: option.splits)
    from notfree q m have "n \<noteq> m" by auto
    with m show "case ref_slot s' q of None \<Rightarrow> False | Some k \<Rightarrow> ref s' ! k = 0"
      by (simp add: slots) (simp add: s')
  qed
  have 3: "distinct (map pgindex (freelist s'))"
    using inv by (simp add: kinv_def s')
  from 1 2 3 show ?thesis by (simp add: kinv_def)
qed

lemma krun_kinv:
  "kinv s \<Longrightarrow> disciplined L ops s \<Longrightarrow> krun L ops s = Inr s' \<Longrightarrow> kinv s'"
proof (induction ops arbitrary: s)
  case Nil
  then show ?case by simp
next
  case (Cons op ops)
  from Cons.prems(3) obtain s1 where step: "kstep L op s = Inr s1" and rest: "krun L ops s1 = Inr s'"
    by (auto split: sum.splits)
  from Cons.prems(2) step have d: "disciplined L ops s1" by simp
  have "kinv s1"
  proof (cases op)
    case Allocate
    with step obtain r where "kalloc s = Inr (s1, r)"
      by (auto simp: kstep_def split: sum.splits)
    with Cons.prems(1) show ?thesis by (rule kalloc_kinv)
  next
    case (Free pa)
    with step have "kfree L pa s = Inr s1" by (simp add: kstep_def)
    with Cons.prems(1) show ?thesis by (rule kfree_kinv)
  next
    case (AddReference pa d)
    with step obtain v where "increref pa d s = Inr (s1, v)"
      by (auto simp: kstep_def split: sum.splits)
    moreover from Cons.prems(2) AddReference have "addref_ok pa d s" by simp
    ultimately show ?thesis using Cons.prems(1) by (blast intro: increref_kinv)
  qed
  from Cons.IH [OF this d rest] show ?case .
qed


lemma sweeping_kinv:
  assumes "sweeping p s"
  shows "kinv s"
proof -
  have z: "\<forall>r \<in> set (ref s). r = 0"
    using assms by (simp add: sweeping_def)
  have 1: "refs_nonneg s"
    using z by (auto simp: refs_nonneg_def)
  have 2: "free_unreferenced s"
    unfolding free_unreferenced_def
  proof
    fix q assume "q \<in> set (freelist s)"
    with assms have m: "ref_slot s q = Some (unat (q div PGSIZE))"
      by (simp add: sweeping_def)
    from ref_slot_bound [OF m] z have "ref s ! unat (q div PGSIZE) = 0"
      by simp
    with m show "case ref_slot s q of None \<Rightarrow> False | Some n \<Rightarrow> ref s ! n = 0"
      by simp
  qed
  from assms 1 2 show ?thesis
    by (simp add: kinv_def sweeping_def)
qed

lemma next_page:
  assumes "unat p + unat PGSIZE \<le> unat (pa_end :: 64 word)"
  shows "unat ((p + PGSIZE) div PGSIZE) = Suc (unat (p div PGSIZE))"
proof -
  have pg: "unat PGSIZE = 4096"
    by (simp add: PGSIZE_def)
  have "unat pa_end < 2 ^ 64"
    using unsigned_less [of pa_end, where ?'a = nat] by simp
  with assms pg have "unat p + 4096 < 2 ^ 64"
    by simp
  then have "unat (p + PGSIZE) = unat p + 4096"
    by (simp add: unat_word_ariths PGSIZE_def)
  then show ?thesis
    by (simp add: unat_div pg)
qed

lemma sweeping_step:
  assumes J: "sweeping p s" and le: "unat p + unat PGSIZE \<le> unat (pa_end :: 64 word)"
    and k: "unat (p div PGSIZE) < length (ref s)"
    and ok: "kfree L p (s\<lparr>ref := (ref s)[unat (p div PGSIZE) := 1]\<rparr>) = Inr s'"
  shows "sweeping (p + PGSIZE) s'"
proof -
  let ?k = "unat (p div PGSIZE)"
  let ?s1 = "s\<lparr>ref := (ref s)[?k := 1]\<rparr>"
  have zero: "\<And>i. i < length (ref s) \<Longrightarrow> ref s ! i = 0"
    using J by (simp add: sweeping_def)
  from ok obtain n where slot: "ref_slot ?s1 p = Some n" and pos: "0 < sint (ref ?s1 ! n)"
    by (auto simp: kfree_def split: if_splits option.splits)
  have n: "n < length (ref s)"
    using ref_slot_bound [OF slot] by simp
  have nk: "n = ?k"
  proof (rule ccontr)
    assume "n \<noteq> ?k"
    with n zero have "ref ?s1 ! n = 0" by simp
    with pos show False by simp
  qed
  have s': "s' = s\<lparr>ref := (ref s)[?k := 0], junk := (junk s)(p \<mapsto> 1), freelist := p # freelist s\<rparr>"
    using ok slot k unfolding nk by (auto simp: kfree_def Let_def split: if_splits)
  have slots: "\<And>q. ref_slot s' q = ref_slot s q" "\<And>q. ref_slot ?s1 q = ref_slot s q"
    by (rule ref_slot_length, simp add: s')+
  have sp: "ref_slot s p = Some ?k"
    using slot nk by (simp add: slots)
  have 1: "\<forall>r \<in> set (ref s'). r = 0"
    using J unfolding sweeping_def s'
    by (auto dest!: subsetD [OF set_update_subset_insert])
  have nx: "unat ((p + PGSIZE) div PGSIZE) = Suc ?k"
    using le by (rule next_page)
  have 2: "\<forall>q \<in> set (freelist s').
         ref_slot s' q = Some (unat (q div PGSIZE)) \<and> unat (q div PGSIZE) < unat ((p + PGSIZE) div PGSIZE)"
    using J sp unfolding nx slots by (auto simp: s' sweeping_def)
  have "pgindex p \<notin> pgindex ` set (freelist s)"
  proof
    assume "pgindex p \<in> pgindex ` set (freelist s)"
    then obtain q where q: "q \<in> set (freelist s)" and e: "pgindex p = pgindex q" by auto
    from J q have m: "ref_slot s q = Some (unat (q div PGSIZE))" "unat (q div PGSIZE) < ?k"
      by (auto simp: sweeping_def)
    from ref_slot_pgindex [OF sp m(1)] e m(2) show False by simp
  qed
  then have 3: "distinct (map pgindex (freelist s'))"
    using J by (simp add: s' sweeping_def)
  from 1 2 3 show ?thesis by (simp add: sweeping_def)
qed

lemma freerange_from_sweeping:
  "sweeping p s \<Longrightarrow> freerange_from L p pa_end s = Inr s' \<Longrightarrow> \<exists>p'. sweeping p' s'"
proof (induction L p pa_end s rule: freerange_from.induct)
  case (1 L p pa_end s)
  note unfold = freerange_from.simps [of L p pa_end s]
  show ?case
  proof (cases "unat p + unat PGSIZE \<le> unat pa_end")
    case False
    with "1.prems" unfold show ?thesis by auto
  next
    case True
    with "1.prems"(2) unfold have k: "unat (p div PGSIZE) < length (ref s)"
      by (auto split: if_splits)
    with True "1.prems"(2) unfold obtain s1
      where ok: "kfree L p (s\<lparr>ref := (ref s)[unat (p div PGSIZE) := 1]\<rparr>) = Inr s1"
        and rest: "freerange_from L (p + PGSIZE) pa_end s1 = Inr s'"
      by (auto split: sum.splits)
    have "sweeping (p + PGSIZE) s1"
      using "1.prems"(1) True k ok by (rule sweeping_step)
    from "1.IH" [OF True k ok this rest] show ?thesis .
  qed
qed

lemma kinit_kinv: "kinit L = Inr s \<Longrightarrow> kinv s"
proof -
  assume a: "kinit L = Inr s"
  have "sweeping (PGROUNDUP (kernel_end L)) (kmem0 L)"
    by (simp add: sweeping_def kmem0_def)
  moreover from a have "freerange_from L (PGROUNDUP (kernel_end L)) (phystop L) (kmem0 L) = Inr s"
    by (simp add: kinit_def freerange_def)
  ultimately obtain p' where "sweeping p' s"
    using freerange_from_sweeping by blast
  then show ?thesis by (rule sweeping_kinv)
qed

lemma kstep_length_ref: "kstep L op s = Inr s' \<Longrightarrow> length (ref s') = length (ref s)"
  by (cases op)
    (auto simp: kstep_def kalloc_def kfree_def increref_def Let_def
      split: sum.splits list.splits option.splits if_splits)

lemma krun_length_ref: "krun L ops s = Inr s' \<Longrightarrow> length (ref s') = length (ref s)"
proof (induction ops arbitrary: s)
  case Nil
  then show ?case by simp
next
  case (Cons op ops)
  then show ?case
    by (auto split: sum.splits dest: kstep_length_ref)
qed

lemma freerange_from_length_ref:
  "freerange_from L p pa_end s = Inr s' \<Longrightarrow> length (ref s') = length (ref s)"
proof (induction L p pa_end s rule: freerange_from.induct)
  case (1 L p pa_end s)
  note unfold = freerange_from.simps [of L p pa_end s]
  show ?case
  proof (cases "unat p + unat PGSIZE \<le> unat pa_end")
    case False
    with "1.prems" unfold show ?thesis by auto
  next
    case True
    with "1.prems" unfold have k: "unat (p div PGSIZE) < length (ref s)"
      by (auto split: if_splits)
    with True "1.prems" unfold obtain s1
      where ok: "kfree L p (s\<lparr>ref := (ref s)[unat (p div PGSIZE) := 1]\<rparr>) = Inr s1"
        and rest: "freerange_from L (p + PGSIZE) pa_end s1 = Inr s'"
      by (auto split: sum.splits)
    from ok have "length (ref s1) = length (ref s)"
      by (auto simp: kfree_def Let_def split: option.splits if_splits)
    with "1.IH" [OF True k ok rest] show ?thesis
      by simp
  qed
qed

lemma counters_cover_memory:
  assumes "kinit L = Inr s0" and "krun L ops s0 = Inr s"
  shows "length (ref s) = unat (phystop L div PGSIZE)"
proof -
  from assms(1) have "length (ref s0) = length (ref (kmem0 L))"
    unfolding kinit_def freerange_def by (rule freerange_from_length_ref)
  with krun_length_ref [OF assms(2)] show ?thesis
    by (simp add: kmem0_def)
qed

lemma replicate_3: "replicate 3 x = [x, x, x]"
  by (simp add: numeral_3_eq_3)

lemmas kalloc_eval = kinit_def freerange_def PGROUNDUP_def PGSIZE_def kmem0_def
  freerange_from.simps kfree_def kalloc_def increref_def ref_slot_def pgindex_def Let_def
  kstep_def kafter_def two_pages_def replicate_3

lemma ref_slot_in_range:
  assumes L: "layout_ok L" and len: "length (ref s) = unat (phystop L div PGSIZE)"
    and pa: "pa < phystop L"
  shows "ref_slot s pa = Some (unat (pa div PGSIZE))"
proof -
  have pg: "unat PGSIZE = 4096"
    by (simp add: PGSIZE_def)
  from L have "phystop L \<le> 2 ^ 43"
    by (simp add: layout_ok_def)
  with pa have idx: "pgindex pa = int (unat (pa div PGSIZE))"
    by (rule pgindex_in_range)
  from L have "unat (phystop L mod PGSIZE) = 0"
    by (simp add: layout_ok_def)
  then have al: "unat (phystop L) mod 4096 = 0"
    by (simp add: unat_mod pg)
  from al obtain k where k: "unat (phystop L) = 4096 * k"
    by (auto simp: mod_eq_0_iff_dvd)
  from pa have "unat pa < unat (phystop L)"
    by (rule iffD1 [OF word_less_nat_alt])
  then have "unat pa < k * 4096"
    by (simp add: k)
  then have "unat pa div 4096 < k"
    by (rule less_mult_imp_div_less)
  then have "unat pa div 4096 < unat (phystop L) div 4096"
    by (simp add: k)
  then have "unat (pa div PGSIZE) < length (ref s)"
    by (simp add: len unat_div pg)
  with idx show ?thesis
    by (simp add: ref_slot_def)
qed

text \<open>
  Claim C3. \<open>kfree\<close> panics on an address that is not page aligned, lies below the end
  of the kernel image, or is at or above \<open>PHYSTOP\<close>. Otherwise it panics when the
  page's count is already \<open>\<le> 0\<close>. Otherwise it decrements the count: when the count was
  above 1 it returns and leaves the free list and the page alone; when the count was 1 the
  count becomes 0, the page is filled with the byte 1 and pushed on the free list.
\<close>

theorem kfree_outcomes:
  assumes L: "layout_ok L" and len: "length (ref s) = unat (phystop L div PGSIZE)"
  shows
    "(pa mod PGSIZE \<noteq> 0 \<or> pa < kernel_end L \<or> phystop L \<le> pa \<longrightarrow>
        kfree L pa s = Inl (Panic ''kfree'')) \<and>
     (pa mod PGSIZE = 0 \<and> kernel_end L \<le> pa \<and> pa < phystop L \<longrightarrow>
        (sint (ref s ! unat (pa div PGSIZE)) \<le> 0 \<longrightarrow>
           kfree L pa s = Inl (Panic (''Ref less than or equal 0!'' @ [CHR 0x0A]))) \<and>
        (1 < sint (ref s ! unat (pa div PGSIZE)) \<longrightarrow>
           kfree L pa s =
             Inr (s\<lparr>ref := (ref s)[unat (pa div PGSIZE) := ref s ! unat (pa div PGSIZE) - 1]\<rparr>) \<and>
           sint (ref s ! unat (pa div PGSIZE) - 1) = sint (ref s ! unat (pa div PGSIZE)) - 1) \<and>
        (sint (ref s ! unat (pa div PGSIZE)) = 1 \<longrightarrow>
           kfree L pa s =
             Inr (s\<lparr>ref := (ref s)[unat (pa div PGSIZE) := 0],
                     junk := (junk s)(pa \<mapsto> 1),
                     freelist := pa # freelist s\<rparr>)))"
proof (intro conjI impI)
  assume "pa mod PGSIZE \<noteq> 0 \<or> pa < kernel_end L \<or> phystop L \<le> pa"
  then show "kfree L pa s = Inl (Panic ''kfree'')"
    by (simp add: kfree_def)
next
  let ?n = "unat (pa div PGSIZE)"
  assume a: "pa mod PGSIZE = 0 \<and> kernel_end L \<le> pa \<and> pa < phystop L"
  then have slot: "ref_slot s pa = Some ?n"
    using ref_slot_in_range [OF L len] by simp
  have n: "?n < length (ref s)"
    using slot by (rule ref_slot_bound)
  from a have pass: "\<not> (pa mod PGSIZE \<noteq> 0 \<or> pa < kernel_end L \<or> phystop L \<le> pa)"
    by (simp add: not_less not_le)
  {
    assume "sint (ref s ! ?n) \<le> 0"
    then show "kfree L pa s = Inl (Panic (''Ref less than or equal 0!'' @ [CHR 0x0A]))"
      using pass slot by (simp add: kfree_def)
  }
  {
    assume b: "1 < sint (ref s ! ?n)"
    then have pos: "0 < sint (ref s ! ?n)" by simp
    then show dec: "sint (ref s ! ?n - 1) = sint (ref s ! ?n) - 1"
      by (rule sint_dec)
    with b have "0 < sint (ref s ! ?n - 1)" by simp
    then show "kfree L pa s = Inr (s\<lparr>ref := (ref s)[?n := ref s ! ?n - 1]\<rparr>)"
      using pass slot pos n by (simp add: kfree_def Let_def)
  }
  {
    assume b: "sint (ref s ! ?n) = 1"
    then have "sint (ref s ! ?n) = sint (1 :: 32 word)" by simp
    then have one: "ref s ! ?n = 1"
      by (rule signed_word_eqI)
    then show "kfree L pa s =
             Inr (s\<lparr>ref := (ref s)[?n := 0], junk := (junk s)(pa \<mapsto> 1),
                     freelist := pa # freelist s\<rparr>)"
      using pass slot n by (simp add: kfree_def Let_def)
  }
qed

theorem kfree_outcomes_witness:
  "layout_ok two_pages \<and>
   kfree two_pages 0x2004 \<lparr>freelist = [0x1000], ref = [0, 0, 2], junk = Map.empty\<rparr>
     = Inl (Panic ''kfree'') \<and>
   kfree two_pages 0x1000 \<lparr>freelist = [0x1000], ref = [0, 0, 2], junk = Map.empty\<rparr>
     = Inl (Panic (''Ref less than or equal 0!'' @ [CHR 0x0A])) \<and>
   kfree two_pages 0x2000 \<lparr>freelist = [0x1000], ref = [0, 0, 2], junk = Map.empty\<rparr>
     = Inr \<lparr>freelist = [0x1000], ref = [0, 0, 1], junk = Map.empty\<rparr> \<and>
   kfree two_pages 0x2000 \<lparr>freelist = [0x1000], ref = [0, 0, 1], junk = Map.empty\<rparr>
     = Inr \<lparr>freelist = [0x2000, 0x1000], ref = [0, 0, 0], junk = [0x2000 \<mapsto> 1]\<rparr>"
proof -
  have L: "layout_ok two_pages"
    by (simp add: layout_ok_def two_pages_def PGSIZE_def)
  have len2: "length (ref \<lparr>freelist = [0x1000], ref = [0, 0, 2], junk = Map.empty\<rparr>)
      = unat (phystop two_pages div PGSIZE)"
    by (simp add: two_pages_def PGSIZE_def)
  have len1: "length (ref \<lparr>freelist = [0x1000], ref = [0, 0, 1], junk = Map.empty\<rparr>)
      = unat (phystop two_pages div PGSIZE)"
    by (simp add: two_pages_def PGSIZE_def)
  show ?thesis
    using L kfree_outcomes [OF L len2, where pa = "0x2004"] kfree_outcomes [OF L len2, where pa = "0x1000"]
      kfree_outcomes [OF L len2, where pa = "0x2000"] kfree_outcomes [OF L len1, where pa = "0x2000"]
    by (simp add: two_pages_def PGSIZE_def)
qed

text \<open>
  Claim C4. \<open>kalloc\<close> with an empty free list returns the null pointer and changes
  nothing. With a head \<open>r\<close> it pops \<open>r\<close>; it panics when the count of \<open>r\<close> is not 0,
  otherwise it sets the count to 1, fills the page with the non-zero byte 5 and returns
  \<open>r\<close>.
\<close>

theorem kalloc_outcomes:
  "(freelist s = [] \<longrightarrow> kalloc s = Inr (s, 0)) \<and>
   (freelist s = r # rest \<and> r \<noteq> 0 \<and> ref_slot s r = Some n \<longrightarrow>
      (ref s ! n \<noteq> 0 \<longrightarrow> kalloc s = Inl (Panic ''Alloc a existed page'')) \<and>
      (ref s ! n = 0 \<longrightarrow>
         kalloc s =
           Inr (s\<lparr>freelist := rest, ref := (ref s)[n := 1], junk := (junk s)(r \<mapsto> 5)\<rparr>, r) \<and>
         (5 :: 8 word) \<noteq> 0))"
  by (auto simp: kalloc_def Let_def ref_slot_def)

theorem kalloc_outcomes_witness:
  "kalloc \<lparr>freelist = [], ref = [0, 0, 0], junk = Map.empty\<rparr>
     = Inr (\<lparr>freelist = [], ref = [0, 0, 0], junk = Map.empty\<rparr>, 0) \<and>
   kalloc \<lparr>freelist = [0x2000, 0x1000], ref = [0, 0, 1], junk = Map.empty\<rparr>
     = Inl (Panic ''Alloc a existed page'') \<and>
   kalloc \<lparr>freelist = [0x2000, 0x1000], ref = [0, 0, 0], junk = Map.empty\<rparr>
     = Inr (\<lparr>freelist = [0x1000], ref = [0, 0, 1], junk = [0x2000 \<mapsto> 5]\<rparr>, 0x2000)"
  using
    kalloc_outcomes [where s = "\<lparr>freelist = [], ref = [0, 0, 0], junk = Map.empty\<rparr>"
      and r = 0 and rest = "[]" and n = 0]
    kalloc_outcomes [where s = "\<lparr>freelist = [0x2000, 0x1000], ref = [0, 0, 1], junk = Map.empty\<rparr>"
      and r = "0x2000" and rest = "[0x1000]" and n = 2]
    kalloc_outcomes [where s = "\<lparr>freelist = [0x2000, 0x1000], ref = [0, 0, 0], junk = Map.empty\<rparr>"
      and r = "0x2000" and rest = "[0x1000]" and n = 2]
  by (simp add: ref_slot_def pgindex_def PGSIZE_def)

text \<open>
  Claim C2, as amended. From the state that \<open>kinit\<close> leaves, every sequence of
  \<open>kalloc\<close>, \<open>kfree\<close> and \<open>increref\<close> calls in which each \<open>increref\<close> is well
  behaved (\<open>addref_ok\<close>) keeps every count non-negative and keeps the count of every
  page on the free list at 0.
\<close>

theorem allocator_invariant:
  assumes "kinit L = Inr s0" and "disciplined L ops s0" and "krun L ops s0 = Inr s"
  shows "refs_nonneg s \<and> free_unreferenced s"
proof -
  from assms(1) have "kinv s0"
    by (rule kinit_kinv)
  from this assms(2,3) have "kinv s"
    by (rule krun_kinv)
  then show ?thesis
    by (simp add: kinv_def)
qed

theorem allocator_invariant_witness:
  "kinit two_pages =
     Inr \<lparr>freelist = [0x2000, 0x1000], ref = [0, 0, 0], junk = [0x1000 \<mapsto> 1, 0x2000 \<mapsto> 1]\<rparr> \<and>
   disciplined two_pages [Allocate, AddReference 0x2000 1, Free 0x2000, Free 0x2000, Allocate]
     \<lparr>freelist = [0x2000, 0x1000], ref = [0, 0, 0], junk = [0x1000 \<mapsto> 1, 0x2000 \<mapsto> 1]\<rparr> \<and>
   krun two_pages [Allocate, AddReference 0x2000 1, Free 0x2000, Free 0x2000, Allocate]
     \<lparr>freelist = [0x2000, 0x1000], ref = [0, 0, 0], junk = [0x1000 \<mapsto> 1, 0x2000 \<mapsto> 1]\<rparr>
     = Inr \<lparr>freelist = [0x1000], ref = [0, 0, 1], junk = [0x1000 \<mapsto> 1, 0x2000 \<mapsto> 5]\<rparr> \<and>
   refs_nonneg \<lparr>freelist = [0x1000], ref = [0, 0, 1], junk = [0x1000 \<mapsto> 1, 0x2000 \<mapsto> 5]\<rparr> \<and>
   free_unreferenced
     \<lparr>freelist = [0x1000], ref = [0, 0, 1], junk = [0x1000 \<mapsto> 1, 0x2000 \<mapsto> 5]\<rparr>"
proof -
  have init: "kinit two_pages =
     Inr \<lparr>freelist = [0x2000, 0x1000], ref = [0, 0, 0], junk = [0x1000 \<mapsto> 1, 0x2000 \<mapsto> 1]\<rparr>"
    by (simp add: kalloc_eval)
  have disc: "disciplined two_pages
     [Allocate, AddReference 0x2000 1, Free 0x2000, Free 0x2000, Allocate]
     \<lparr>freelist = [0x2000, 0x1000], ref = [0, 0, 0], junk = [0x1000 \<mapsto> 1, 0x2000 \<mapsto> 1]\<rparr>"
    by (simp add: kalloc_eval addref_ok_def)
  have run: "krun two_pages [Allocate, AddReference 0x2000 1, Free 0x2000, Free 0x2000, Allocate]
     \<lparr>freelist = [0x2000, 0x1000], ref = [0, 0, 0], junk = [0x1000 \<mapsto> 1, 0x2000 \<mapsto> 1]\<rparr>
     = Inr \<lparr>freelist = [0x1000], ref = [0, 0, 1], junk = [0x1000 \<mapsto> 1, 0x2000 \<mapsto> 5]\<rparr>"
    by (simp add: kalloc_eval)
  from allocator_invariant [OF init disc run] init disc run show ?thesis
    by simp
qed

text \<open>
  Claim C2 as stated fails: \<open>increref\<close> adds any signed amount to any counter. After
  \<open>kinit\<close>, \<open>increref(0x2000, -1)\<close> leaves the count of a page at -1, and
  \<open>increref(0x2000, 1)\<close> leaves a page on the free list with count 1.
\<close>

theorem allocator_invariant_counterexample:
  "\<not> isl (kafter two_pages [AddReference 0x2000 (- 1)]) \<and>
   \<not> refs_nonneg (projr (kafter two_pages [AddReference 0x2000 (- 1)])) \<and>
   \<not> isl (kafter two_pages [AddReference 0x2000 1]) \<and>
   \<not> free_unreferenced (projr (kafter two_pages [AddReference 0x2000 1]))"
  by (simp add: kalloc_eval refs_nonneg_def free_unreferenced_def)

section \<open>Properties of the buffer cache\<close>

lemma replicate_13: "replicate 13 x = [x, x, x, x, x, x, x, x, x, x, x, x, x]"
  by (simp add: numeral_eq_Suc)

lemma less_all_ones: "x < (- 1 :: 32 word) \<longleftrightarrow> x \<noteq> - 1"
  by (simp add: less_le)

lemmas bcache_eval = cache2_def buf0_def NBUCKETS_def haskBlock_def holdingsleep_def Let_def

lemma haskBlock_less: "haskBlock bn < int NBUCKETS"
proof -
  have "- ((- sint bn) mod 13) \<le> 0"
    by simp
  then show ?thesis
    by (auto simp: haskBlock_def NBUCKETS_def Let_def intro: le_less_trans)
qed

lemma bucket_index:
  assumes "0 \<le> haskBlock bn" and "length (buckets s) = NBUCKETS"
  shows "0 \<le> haskBlock bn \<and> nat (haskBlock bn) < length (buckets s)"
  using assms haskBlock_less [of bn] by simp

lemma lock_index:
  assumes "0 \<le> haskBlock bn"
  shows "0 \<le> haskBlock bn \<and> nat (haskBlock bn) < NBUCKETS"
  using assms haskBlock_less [of bn] by simp

lemma brelse_result:
  assumes b: "b < length (bufs s)" and held: "holdingsleep p b s"
    and hash: "0 \<le> haskBlock (blockno (bufs s ! b))"
  shows "brelse p now b s =
     Inr (s\<lparr>bufs := (bufs s)[b := (bufs s ! b)
            \<lparr>holder := None,
             refcnt := refcnt (bufs s ! b) - 1,
             ticks := (if refcnt (bufs s ! b) - 1 = 0 then now else ticks (bufs s ! b))\<rparr>]\<rparr>)"
proof (cases "refcnt (bufs s ! b) - 1 = 0")
  case True
  then show ?thesis
    using b held lock_index [OF hash]
    by (simp add: brelse_def releasesleep_def Let_def)
next
  case False
  have "(bufs s ! b)\<lparr>holder := None, refcnt := refcnt (bufs s ! b) - 1,
            ticks := ticks (bufs s ! b)\<rparr>
      = (bufs s ! b)\<lparr>holder := None, refcnt := refcnt (bufs s ! b) - 1\<rparr>"
    by simp
  with False show ?thesis
    using b held lock_index [OF hash]
    by (simp add: brelse_def releasesleep_def Let_def)
qed

text \<open>
  Claim C5. \<open>brelse\<close> by the holder of the sleep lock changes one buffer only, and in
  it only the lock, the reference count (decremented) and, exactly when the decremented
  count is 0, the timestamp (set to the current tick). The bucket lists, the device, the
  block number, the validity flag and the payload stay as they were.
\<close>

theorem brelse_effect:
  assumes "b < length (bufs s)" and "holdingsleep p b s"
    and "0 \<le> haskBlock (blockno (bufs s ! b))"
  shows "brelse p now b s =
     Inr (s\<lparr>bufs := (bufs s)[b := (bufs s ! b)
            \<lparr>holder := None,
             refcnt := refcnt (bufs s ! b) - 1,
             ticks := (if refcnt (bufs s ! b) - 1 = 0 then now else ticks (bufs s ! b))\<rparr>]\<rparr>)"
  using assms by (rule brelse_result)

theorem brelse_effect_witness:
  "brelse 7 5 0 (cache2\<lparr>bufs := [(buf0 0)\<lparr>refcnt := 1, holder := Some 7\<rparr>, buf0 0]\<rparr>)
     = Inr (cache2\<lparr>bufs := [(buf0 0)\<lparr>ticks := 5\<rparr>, buf0 0]\<rparr>) \<and>
   brelse 7 5 0 (cache2\<lparr>bufs := [(buf0 0)\<lparr>refcnt := 2, holder := Some 7\<rparr>, buf0 0]\<rparr>)
     = Inr (cache2\<lparr>bufs := [(buf0 0)\<lparr>refcnt := 1\<rparr>, buf0 0]\<rparr>)"
  using
    brelse_effect [where b = 0 and p = 7 and now = 5
      and s = "cache2\<lparr>bufs := [(buf0 0)\<lparr>refcnt := 1, holder := Some 7\<rparr>, buf0 0]\<rparr>"]
    brelse_effect [where b = 0 and p = 7 and now = 5
      and s = "cache2\<lparr>bufs := [(buf0 0)\<lparr>refcnt := 2, holder := Some 7\<rparr>, buf0 0]\<rparr>"]
  by (simp add: bcache_eval)

text \<open>
  Claim C9. \<open>bwrite\<close> and \<open>brelse\<close> panic when the caller does not hold the buffer's
  sleep lock. When it does, \<open>bwrite\<close> writes the payload to the device, and \<open>brelse\<close>
  decrements the reference count and releases the lock.
\<close>

theorem sleeplock_required:
  assumes b: "b < length (bufs s)"
  shows
    "(\<not> holdingsleep p b s \<longrightarrow>
        bwrite p b s = Inl (Panic ''bwrite'') \<and> brelse p now b s = Inl (Panic ''brelse'')) \<and>
     (holdingsleep p b s \<longrightarrow>
        bwrite p b s =
          Inr (s\<lparr>disk := (disk s)((dev (bufs s ! b), blockno (bufs s ! b)) := data (bufs s ! b)),
                  io_log := io_log s @ [DiskWrite (dev (bufs s ! b)) (blockno (bufs s ! b))]\<rparr>) \<and>
        (0 \<le> haskBlock (blockno (bufs s ! b)) \<longrightarrow>
           (\<exists>s'. brelse p now b s = Inr s' \<and>
                 refcnt (bufs s' ! b) = refcnt (bufs s ! b) - 1 \<and>
                 holder (bufs s' ! b) = None)))"
proof (intro conjI impI)
  assume "\<not> holdingsleep p b s"
  with b show "bwrite p b s = Inl (Panic ''bwrite'')" and "brelse p now b s = Inl (Panic ''brelse'')"
    by (simp_all add: bwrite_def brelse_def)
next
  assume held: "holdingsleep p b s"
  with b show "bwrite p b s =
          Inr (s\<lparr>disk := (disk s)((dev (bufs s ! b), blockno (bufs s ! b)) := data (bufs s ! b)),
                  io_log := io_log s @ [DiskWrite (dev (bufs s ! b)) (blockno (bufs s ! b))]\<rparr>)"
    by (simp add: bwrite_def virtio_disk_rw_def Let_def)
  assume hash: "0 \<le> haskBlock (blockno (bufs s ! b))"
  from b held lock_index [OF hash]
  show "\<exists>s'. brelse p now b s = Inr s' \<and>
                 refcnt (bufs s' ! b) = refcnt (bufs s ! b) - 1 \<and>
                 holder (bufs s' ! b) = None"
    by (simp add: brelse_def releasesleep_def Let_def)
qed

theorem sleeplock_required_witness:
  "bwrite 7 0 cache2 = Inl (Panic ''bwrite'') \<and>
   brelse 7 5 0 cache2 = Inl (Panic ''brelse'') \<and>
   bwrite 7 0 (cache2\<lparr>bufs := [(buf0 0)\<lparr>refcnt := 1, holder := Some 7\<rparr>, buf0 0]\<rparr>)
     = Inr (cache2\<lparr>bufs := [(buf0 0)\<lparr>refcnt := 1, holder := Some 7\<rparr>, buf0 0],
                   disk := blank_disk((0, 0) := 0), io_log := [DiskWrite 0 0]\<rparr>) \<and>
   \<not> isl (brelse 7 5 0 (cache2\<lparr>bufs := [(buf0 0)\<lparr>refcnt := 1, holder := Some 7\<rparr>, buf0 0]\<rparr>)) \<and>
   refcnt (bufs (projr (brelse 7 5 0
       (cache2\<lparr>bufs := [(buf0 0)\<lparr>refcnt := 1, holder := Some 7\<rparr>, buf0 0]\<rparr>))) ! 0) = 0 \<and>
   holder (bufs (projr (brelse 7 5 0
       (cache2\<lparr>bufs := [(buf0 0)\<lparr>refcnt := 1, holder := Some 7\<rparr>, buf0 0]\<rparr>))) ! 0) = None"
proof -
  let ?held = "cache2\<lparr>bufs := [(buf0 0)\<lparr>refcnt := 1, holder := Some 7\<rparr>, buf0 0]\<rparr>"
  have b: "0 < length (bufs cache2)" "0 < length (bufs ?held)"
    by (simp_all add: bcache_eval)
  have free: "\<not> holdingsleep 7 0 cache2"
    by (simp add: bcache_eval)
  have held: "holdingsleep 7 0 ?held"
    by (simp add: bcache_eval)
  have hash: "0 \<le> haskBlock (blockno (bufs ?held ! 0))"
    by (simp add: bcache_eval)
  from sleeplock_required [OF b(1), of 7 5] free
  have 1: "bwrite 7 0 cache2 = Inl (Panic ''bwrite'')" "brelse 7 5 0 cache2 = Inl (Panic ''brelse'')"
    by blast+
  from sleeplock_required [OF b(2), of 7 5] held hash
  have 2: "bwrite 7 0 ?held =
      Inr (?held\<lparr>disk := (disk ?held)((dev (bufs ?held ! 0), blockno (bufs ?held ! 0))
                          := data (bufs ?held ! 0)),
                  io_log := io_log ?held @ [DiskWrite (dev (bufs ?held ! 0)) (blockno (bufs ?held ! 0))]\<rparr>)"
    and "\<exists>s'. brelse 7 5 0 ?held = Inr s' \<and>
              refcnt (bufs s' ! 0) = refcnt (bufs ?held ! 0) - 1 \<and> holder (bufs s' ! 0) = None"
    by blast+
  then obtain s' where 3: "brelse 7 5 0 ?held = Inr s'"
    "refcnt (bufs s' ! 0) = refcnt (bufs ?held ! 0) - 1" "holder (bufs s' ! 0) = None"
    by blast
  from 1 2 3 show ?thesis
    by (simp add: bcache_eval)
qed

lemma scan_bucket_none:
  "\<forall>b \<in> set xs. refcnt (bs ! b) \<noteq> 0 \<Longrightarrow> scan_bucket bs i xs acc = acc"
  by (induction bs i xs acc rule: scan_bucket.induct) auto

lemma scan_buckets_none:
  "\<forall>i \<in> set ids. \<forall>b \<in> set (bks ! i). refcnt (bs ! b) \<noteq> 0 \<Longrightarrow> scan_buckets bs bks ids acc = acc"
  by (induction ids arbitrary: acc) (auto simp: scan_bucket_none)

lemma scan_bucket_free:
  "scan_bucket bs i xs acc = (Some v, t', id') \<Longrightarrow>
     fst acc = Some v \<or> (v \<in> set xs \<and> refcnt (bs ! v) = 0)"
  by (induction bs i xs acc rule: scan_bucket.induct) (auto split: if_splits)

lemma scan_buckets_free:
  "scan_buckets bs bks ids acc = (Some v, t', id') \<Longrightarrow>
     fst acc = Some v \<or> (\<exists>i \<in> set ids. v \<in> set (bks ! i) \<and> refcnt (bs ! v) = 0)"
proof (induction ids arbitrary: acc)
  case Nil
  then show ?case by simp
next
  case (Cons i ids)
  from Cons.prems have "scan_buckets bs bks ids (scan_bucket bs i (bks ! i) acc) = (Some v, t', id')"
    by simp
  from Cons.IH [OF this] show ?case
  proof
    assume "fst (scan_bucket bs i (bks ! i) acc) = Some v"
    then obtain t1 i1 where "scan_bucket bs i (bks ! i) acc = (Some v, t1, i1)"
      by (cases "scan_bucket bs i (bks ! i) acc") auto
    from scan_bucket_free [OF this] show ?thesis by auto
  next
    assume "\<exists>i \<in> set ids. v \<in> set (bks ! i) \<and> refcnt (bs ! v) = 0"
    then show ?thesis by auto
  qed
qed

text \<open>
  Claim C8. When \<open>bget\<close> misses and no buffer linked in any bucket has reference count
  0, it panics with "bget: no buffers". A buffer that \<open>bget\<close> returns on a miss had
  reference count 0.
\<close>

theorem bget_no_buffers:
  assumes hash: "0 \<le> haskBlock bn" and len: "length (buckets s) = NBUCKETS"
    and miss: "find_cached (bufs s) d bn (buckets s ! nat (haskBlock bn)) = None"
  shows
    "((\<forall>i < NBUCKETS. \<forall>b \<in> set (buckets s ! i). refcnt (bufs s ! b) \<noteq> 0) \<longrightarrow>
        bget p now d bn s = Inl (Panic ''bget: no buffers'')) \<and>
     (\<forall>s' b. bget p now d bn s = Inr (s', b) \<longrightarrow> refcnt (bufs s ! b) = 0)"
proof (intro conjI impI allI)
  assume "\<forall>i < NBUCKETS. \<forall>b \<in> set (buckets s ! i). refcnt (bufs s ! b) \<noteq> 0"
  then have "find_victim s = (None, NOT 0, 0)"
    unfolding find_victim_def by (intro scan_buckets_none) simp
  then show "bget p now d bn s = Inl (Panic ''bget: no buffers'')"
    using miss bucket_index [OF hash len] by (simp add: bget_def Let_def)
next
  fix s' b
  assume ok: "bget p now d bn s = Inr (s', b)"
  obtain m t i where fv: "find_victim s = (m, t, i)"
    by (cases "find_victim s") auto
  with ok miss bucket_index [OF hash len] have "m = Some b"
    by (auto simp: bget_def Let_def split: option.splits sum.splits)
  with fv have "scan_buckets (bufs s) (buckets s) [0..<NBUCKETS] (None, NOT 0, 0) = (Some b, t, i)"
    by (simp add: find_victim_def)
  from scan_buckets_free [OF this] show "refcnt (bufs s ! b) = 0"
    by auto
qed

theorem bget_no_buffers_witness:
  "bget 7 5 1 1 (cache2\<lparr>bufs := [(buf0 0)\<lparr>refcnt := 1\<rparr>, (buf0 0)\<lparr>refcnt := 2\<rparr>]\<rparr>)
     = Inl (Panic ''bget: no buffers'') \<and>
   bget 7 5 1 1 cache2 =
     Inr (cache2\<lparr>bufs := [buf0 0, (buf0 0)\<lparr>dev := 1, blockno := 1, refcnt := 1, ticks := 5,
                                              holder := Some 7\<rparr>],
                 buckets := [ [0], [1], [], [], [], [], [], [], [], [], [], [], []]\<rparr>, 1) \<and>
   refcnt (bufs cache2 ! 1) = 0"
proof -
  let ?s = "cache2\<lparr>bufs := [(buf0 0)\<lparr>refcnt := 1\<rparr>, (buf0 0)\<lparr>refcnt := 2\<rparr>]\<rparr>"
  have hash: "0 \<le> haskBlock 1"
    by (simp add: bcache_eval)
  have len: "length (buckets ?s) = NBUCKETS"
    by (simp add: bcache_eval)
  have miss: "find_cached (bufs ?s) 1 1 (buckets ?s ! nat (haskBlock 1)) = None"
    by (simp add: bcache_eval)
  have busy: "\<forall>i < NBUCKETS. \<forall>b \<in> set (buckets ?s ! i). refcnt (bufs ?s ! b) \<noteq> 0"
    by (auto simp: bcache_eval nth_Cons' less_Suc_eq numeral_eq_Suc)
  have len2: "length (buckets cache2) = NBUCKETS"
    by (simp add: bcache_eval)
  have miss2: "find_cached (bufs cache2) 1 1 (buckets cache2 ! nat (haskBlock 1)) = None"
    by (simp add: bcache_eval)
  have ret: "bget 7 5 1 1 cache2 =
     Inr (cache2\<lparr>bufs := [buf0 0, (buf0 0)\<lparr>dev := 1, blockno := 1, refcnt := 1, ticks := 5,
                                              holder := Some 7\<rparr>],
                 buckets := [ [0], [1], [], [], [], [], [], [], [], [], [], [], []]\<rparr>, 1)"
    by (simp add: bcache_eval bget_def find_victim_def rebind_def acquiresleep_def upt_rec
        less_all_ones)
  from bget_no_buffers [OF hash len miss, of 7 5] busy
  have 1: "bget 7 5 1 1 ?s = Inl (Panic ''bget: no buffers'')"
    by blast
  from bget_no_buffers [OF hash len2 miss2, of 7 5] ret
  have 2: "refcnt (bufs cache2 ! 1) = 0"
    by blast
  from 1 ret 2 show ?thesis
    by simp
qed

lemma haskBlock_0: "haskBlock 0 = 0"
  by (simp add: haskBlock_def)

lemma binit_loop_buckets:
  "binit_loop now ids s = Inr s' \<Longrightarrow>
     length (buckets s') = length (buckets s) \<and>
     (\<forall>j. blockno (bufs s' ! j) = blockno (bufs s ! j)) \<and>
     (\<forall>k. set (buckets s ! k) \<subseteq> set (buckets s' ! k)) \<and>
     (\<forall>i \<in> set ids. i \<in> set (buckets s' ! nat (haskBlock (blockno (bufs s ! i)))))"
proof (induction ids arbitrary: s)
  case Nil
  then show ?case by simp
next
  case (Cons i ids)
  let ?h = "nat (haskBlock (blockno (bufs s ! i)))"
  let ?s1 = "s\<lparr>buckets := (buckets s)[?h := i # buckets s ! ?h],
                 bufs := (bufs s)[i := (bufs s ! i)\<lparr>holder := None, ticks := now\<rparr>]\<rparr>"
  from Cons.prems have h: "?h < length (buckets s)" and rest: "binit_loop now ids ?s1 = Inr s'"
    by (auto simp: Let_def split: if_splits)
  have bn: "\<And>j. blockno (bufs ?s1 ! j) = blockno (bufs s ! j)"
  proof -
    fix j
    show "blockno (bufs ?s1 ! j) = blockno (bufs s ! j)"
      by (cases "i < length (bufs s)"; cases "j = i") (simp_all add: list_update_beyond not_less)
  qed
  have grow: "\<And>k. set (buckets s ! k) \<subseteq> set (buckets ?s1 ! k)"
  proof -
    fix k
    show "set (buckets s ! k) \<subseteq> set (buckets ?s1 ! k)"
      using h by (cases "k = ?h") auto
  qed
  have here: "i \<in> set (buckets ?s1 ! ?h)"
    using h by simp
  note IH = Cons.IH [OF rest]
  have 1: "length (buckets s') = length (buckets s)"
    using IH by simp
  have 2: "\<forall>j. blockno (bufs s' ! j) = blockno (bufs s ! j)"
    using IH bn by simp
  have 3: "\<forall>k. set (buckets s ! k) \<subseteq> set (buckets s' ! k)"
    using IH grow by blast
  have 4: "\<forall>x \<in> set (i # ids). x \<in> set (buckets s' ! nat (haskBlock (blockno (bufs s ! x))))"
  proof
    fix x assume "x \<in> set (i # ids)"
    then consider "x = i" | "x \<in> set ids" by auto
    then show "x \<in> set (buckets s' ! nat (haskBlock (blockno (bufs s ! x))))"
    proof cases
      case 1
      with here IH show ?thesis by blast
    next
      case 2
      with IH have "x \<in> set (buckets s' ! nat (haskBlock (blockno (bufs ?s1 ! x))))" by blast
      then show ?thesis by (simp only: bn)
    qed
  qed
  from 1 2 3 4 show ?case by blast
qed

lemma binit_loop_zero:
  "length (buckets s) = NBUCKETS \<Longrightarrow> \<forall>j \<in> set ids. blockno (bufs s ! j) = 0 \<Longrightarrow>
     \<exists>s'. binit_loop now ids s = Inr s' \<and>
          buckets s' = (buckets s)[0 := rev ids @ buckets s ! 0] \<and>
          length (bufs s') = length (bufs s) \<and> disk s' = disk s \<and> io_log s' = io_log s \<and>
          (\<forall>j. bufs s' ! j =
             (if j \<in> set ids \<and> j < length (bufs s)
              then (bufs s ! j)\<lparr>holder := None, ticks := now\<rparr> else bufs s ! j))"
proof (induction ids arbitrary: s)
  case Nil
  then show ?case by simp
next
  case (Cons i ids)
  let ?s1 = "s\<lparr>buckets := (buckets s)[0 := i # buckets s ! 0],
                 bufs := (bufs s)[i := (bufs s ! i)\<lparr>holder := None, ticks := now\<rparr>]\<rparr>"
  have z: "blockno (bufs s ! i) = 0"
    using Cons.prems(2) by simp
  have len: "0 < length (buckets s)"
    using Cons.prems(1) by (simp add: NBUCKETS_def)
  have step: "binit_loop now (i # ids) s = binit_loop now ids ?s1"
    using z len by (simp add: haskBlock_0)
  have bn: "\<And>j. blockno (bufs ?s1 ! j) = blockno (bufs s ! j)"
  proof -
    fix j
    show "blockno (bufs ?s1 ! j) = blockno (bufs s ! j)"
      by (cases "i < length (bufs s)"; cases "j = i") (simp_all add: list_update_beyond not_less)
  qed
  have p1: "length (buckets ?s1) = NBUCKETS"
    using Cons.prems(1) by simp
  have p2: "\<forall>j \<in> set ids. blockno (bufs ?s1 ! j) = 0"
    using Cons.prems(2) by (simp only: bn) simp
  from Cons.IH [OF p1 p2] obtain s' where s': "binit_loop now ids ?s1 = Inr s'"
    "buckets s' = (buckets ?s1)[0 := rev ids @ buckets ?s1 ! 0]"
    "length (bufs s') = length (bufs ?s1)" "disk s' = disk ?s1" "io_log s' = io_log ?s1"
    "\<forall>j. bufs s' ! j =
             (if j \<in> set ids \<and> j < length (bufs ?s1)
              then (bufs ?s1 ! j)\<lparr>holder := None, ticks := now\<rparr> else bufs ?s1 ! j)"
    by blast
  have b: "buckets s' = (buckets s)[0 := rev (i # ids) @ buckets s ! 0]"
    using s'(2) len by simp
  have u: "\<forall>j. bufs s' ! j =
             (if j \<in> set (i # ids) \<and> j < length (bufs s)
              then (bufs s ! j)\<lparr>holder := None, ticks := now\<rparr> else bufs s ! j)"
  proof
    fix j
    show "bufs s' ! j =
             (if j \<in> set (i # ids) \<and> j < length (bufs s)
              then (bufs s ! j)\<lparr>holder := None, ticks := now\<rparr> else bufs s ! j)"
      using s'(6) by (cases "j = i") (auto simp: list_update_beyond not_less)
  qed
  from step s'(1,3,4,5) b u show ?case
    by simp
qed

lemma binit_hashes:
  assumes ok: "binit now s0 = Inr s" and i: "i < length (bufs s0)"
  shows "i \<in> set (buckets s ! nat (haskBlock (blockno (bufs s0 ! i))))"
proof -
  let ?s1 = "s0\<lparr>buckets := replicate NBUCKETS []\<rparr>"
  from ok have "binit_loop now [0..<length (bufs s0)] ?s1 = Inr s"
    by (simp add: binit_def)
  from binit_loop_buckets [OF this] i show ?thesis
    by simp
qed

lemma binit_zero_pool:
  "binit now (bcache0 n z d) =
     Inr \<lparr>bufs = replicate n ((buf0 z)\<lparr>ticks := now\<rparr>),
          buckets = rev [0..<n] # replicate (NBUCKETS - 1) [],
          disk = d, io_log = []\<rparr>"
proof -
  let ?s0 = "bcache0 n z d"
  let ?s1 = "?s0\<lparr>buckets := replicate NBUCKETS []\<rparr>"
  have p1: "length (buckets ?s1) = NBUCKETS"
    by simp
  have p2: "\<forall>j \<in> set [0..<length (bufs ?s0)]. blockno (bufs ?s1 ! j) = 0"
    by (simp add: bcache0_def buf0_def)
  from binit_loop_zero [OF p1 p2, of now] obtain s'
    where s': "binit_loop now [0..<length (bufs ?s0)] ?s1 = Inr s'"
      "buckets s' = (buckets ?s1)[0 := rev [0..<length (bufs ?s0)] @ buckets ?s1 ! 0]"
      "length (bufs s') = length (bufs ?s1)" "disk s' = disk ?s1" "io_log s' = io_log ?s1"
      "\<forall>j. bufs s' ! j =
             (if j \<in> set [0..<length (bufs ?s0)] \<and> j < length (bufs ?s1)
              then (bufs ?s1 ! j)\<lparr>holder := None, ticks := now\<rparr> else bufs ?s1 ! j)"
    by blast
  have n: "length (bufs ?s0) = n"
    by (simp add: bcache0_def)
  have r: "replicate NBUCKETS ([] :: nat list) = [] # replicate (NBUCKETS - 1) []"
    by (simp add: NBUCKETS_def numeral_eq_Suc)
  have b: "buckets s' = rev [0..<n] # replicate (NBUCKETS - 1) []"
    using s'(2) by (simp add: n r)
  have u: "bufs s' = replicate n ((buf0 z)\<lparr>ticks := now\<rparr>)"
  proof (rule nth_equalityI)
    show "length (bufs s') = length (replicate n ((buf0 z)\<lparr>ticks := now\<rparr>))"
      using s'(3) by (simp add: bcache0_def)
  next
    fix j assume "j < length (bufs s')"
    then have j: "j < n"
      using s'(3) by (simp add: bcache0_def)
    with s'(6) show "bufs s' ! j = replicate n ((buf0 z)\<lparr>ticks := now\<rparr>) ! j"
      by (simp add: bcache0_def buf0_def)
  qed
  have "s' = \<lparr>bufs = replicate n ((buf0 z)\<lparr>ticks := now\<rparr>),
          buckets = rev [0..<n] # replicate (NBUCKETS - 1) [],
          disk = d, io_log = []\<rparr>"
    using b u s'(4,5) by (cases s') (simp add: bcache0_def)
  with s'(1) show ?thesis
    by (simp add: binit_def)
qed

text \<open>
  Claim C6, as amended. \<open>binit\<close> links every buffer into the bucket given by the hash
  of the block number the buffer has at that moment. The pool is zeroed static storage,
  so every block number is 0: all buffers land in bucket 0, the last buffer first, and
  the other buckets stay empty.
\<close>

theorem binit_buckets:
  "(binit now s0 = Inr s \<longrightarrow>
      (\<forall>i < length (bufs s0). i \<in> set (buckets s ! nat (haskBlock (blockno (bufs s0 ! i)))))) \<and>
   binit now (bcache0 n z d) =
     Inr \<lparr>bufs = replicate n ((buf0 z)\<lparr>ticks := now\<rparr>),
          buckets = rev [0..<n] # replicate (NBUCKETS - 1) [],
          disk = d, io_log = []\<rparr>"
  using binit_hashes [of now s0 s] binit_zero_pool [of now n z d] by blast

theorem binit_buckets_witness:
  "binit 0 (bcache0 2 0 blank_disk) = Inr cache2 \<and>
   1 < length (bufs (bcache0 2 0 blank_disk)) \<and>
   1 \<in> set (buckets cache2 ! nat (haskBlock (blockno (bufs (bcache0 2 0 blank_disk) ! 1))))"
proof -
  have run: "binit 0 (bcache0 2 0 blank_disk) = Inr cache2"
    by (simp add: binit_def bcache0_def bcache_eval numeral_2_eq_2 replicate_13)
  have len: "1 < length (bufs (bcache0 2 0 blank_disk))"
    by (simp add: bcache0_def)
  from binit_buckets [THEN conjunct1, THEN mp, OF run]
  have "\<forall>i < length (bufs (bcache0 2 0 blank_disk)).
          i \<in> set (buckets cache2 ! nat (haskBlock (blockno (bufs (bcache0 2 0 blank_disk) ! i))))" .
  from this [THEN spec, of 1, THEN mp, OF len] have
    "1 \<in> set (buckets cache2 ! nat (haskBlock (blockno (bufs (bcache0 2 0 blank_disk) ! 1))))" .
  with run len show ?thesis
    by simp
qed

text \<open>
  Claim C6 as stated fails: the buffers are not dealt out round-robin. With two buffers,
  buffer 1 is in bucket 0 together with buffer 0, and bucket 1 is empty.
\<close>

theorem binit_buckets_counterexample:
  "binit 0 (bcache0 2 0 blank_disk) = Inr cache2 \<and>
   buckets cache2 ! 0 = [1, 0] \<and> buckets cache2 ! 1 = []"
  by (simp add: binit_def bcache0_def bcache_eval numeral_2_eq_2 replicate_13)

lemma find_cached_Some:
  "find_cached bs d bn xs = Some b \<Longrightarrow> b \<in> set xs \<and> dev (bs ! b) = d \<and> blockno (bs ! b) = bn"
  by (induction xs) (auto split: if_splits)

lemma find_cached_same:
  "\<forall>x \<in> set xs. dev (bs' ! x) = dev (bs ! x) \<and> blockno (bs' ! x) = blockno (bs ! x) \<Longrightarrow>
     find_cached bs' d bn xs = find_cached bs d bn xs"
  by (induction xs) auto

lemma find_cached_None:
  "find_cached bs d bn xs = None \<Longrightarrow>
     \<forall>x \<in> set xs. \<not> (dev (bs ! x) = d \<and> blockno (bs ! x) = bn)"
  by (induction xs) (auto split: if_splits)

lemma find_cached_rebound:
  assumes "b \<in> set xs" and "dev (bs ! b) = d" and "blockno (bs ! b) = bn"
    and "\<forall>x \<in> set xs. x \<noteq> b \<longrightarrow> \<not> (dev (bs ! x) = d \<and> blockno (bs ! x) = bn)"
  shows "find_cached bs d bn xs = Some b"
  using assms by (induction xs) auto

lemma scan_bucket_where:
  "scan_bucket bs i xs acc = (Some v, t', id') \<Longrightarrow>
     (fst acc = Some v \<and> snd (snd acc) = id') \<or> (v \<in> set xs \<and> id' = i)"
  by (induction bs i xs acc rule: scan_bucket.induct) (auto split: if_splits)

lemma scan_buckets_where:
  "scan_buckets bs bks ids acc = (Some v, t', id') \<Longrightarrow>
     (fst acc = Some v \<and> snd (snd acc) = id') \<or> (id' \<in> set ids \<and> v \<in> set (bks ! id'))"
proof (induction ids arbitrary: acc)
  case Nil
  then show ?case by simp
next
  case (Cons i ids)
  from Cons.prems have "scan_buckets bs bks ids (scan_bucket bs i (bks ! i) acc) = (Some v, t', id')"
    by simp
  from Cons.IH [OF this] show ?case
  proof
    assume a: "fst (scan_bucket bs i (bks ! i) acc) = Some v \<and>
               snd (snd (scan_bucket bs i (bks ! i) acc)) = id'"
    then obtain t1 where "scan_bucket bs i (bks ! i) acc = (Some v, t1, id')"
      by (cases "scan_bucket bs i (bks ! i) acc") auto
    from scan_bucket_where [OF this] show ?thesis by auto
  next
    assume "id' \<in> set ids \<and> v \<in> set (bks ! id')"
    then show ?thesis by auto
  qed
qed

lemma find_victim_where:
  "find_victim s = (Some b, t, i) \<Longrightarrow> i < NBUCKETS \<and> b \<in> set (buckets s ! i)"
  unfolding find_victim_def by (drule scan_buckets_where) auto

lemma wf_member:
  "bcache_wf s \<Longrightarrow> i < NBUCKETS \<Longrightarrow> b \<in> set (buckets s ! i) \<Longrightarrow> b < length (bufs s)"
  by (auto simp: bcache_wf_def)


lemma bucket_ok:
  assumes "bcache_wf s" and "0 \<le> haskBlock bn"
  shows "0 \<le> haskBlock bn \<and> nat (haskBlock bn) < length (buckets s)"
    and "nat (haskBlock bn) < NBUCKETS"
  using assms haskBlock_less [of bn] by (simp_all add: bcache_wf_def)

lemma bget_hit_props:
  assumes b: "b < length (bufs s)" and ok: "bget_hit p b s = Inr (s1, b')"
  shows "b' = b \<and> buckets s1 = buckets s \<and> disk s1 = disk s \<and> io_log s1 = io_log s \<and>
         length (bufs s1) = length (bufs s) \<and>
         (\<forall>j. j \<noteq> b \<longrightarrow> bufs s1 ! j = bufs s ! j) \<and>
         bufs s1 ! b = (bufs s ! b)\<lparr>refcnt := refcnt (bufs s ! b) + 1, holder := Some p\<rparr>"
  using assms
  by (auto simp: bget_hit_def acquiresleep_def split: if_splits)

lemma rebind_props:
  assumes b: "b < length (bufs s)"
  shows "disk (rebind now d bn h i b s) = disk s \<and> io_log (rebind now d bn h i b s) = io_log s \<and>
         length (bufs (rebind now d bn h i b s)) = length (bufs s) \<and>
         length (buckets (rebind now d bn h i b s)) = length (buckets s) \<and>
         (\<forall>j. j \<noteq> b \<longrightarrow> bufs (rebind now d bn h i b s) ! j = bufs s ! j) \<and>
         bufs (rebind now d bn h i b s) ! b =
           (bufs s ! b)\<lparr>dev := d, blockno := bn, valid := 0, refcnt := 1, ticks := now\<rparr>"
  using b by (simp add: rebind_def Let_def)

lemma rebind_bucket:
  assumes h: "h < length (buckets s)" and i: "i < length (buckets s)"
    and b: "b \<in> set (buckets s ! i)"
  shows "b \<in> set (buckets (rebind now d bn h i b s) ! h)"
    and "set (buckets (rebind now d bn h i b s) ! h) \<subseteq> insert b (set (buckets s ! h))"
    and "\<forall>bk \<in> set (buckets (rebind now d bn h i b s)). set bk \<subseteq> \<Union> (set ` set (buckets s))"
proof -
  show "b \<in> set (buckets (rebind now d bn h i b s) ! h)"
    using h i b by (auto simp: rebind_def Let_def)
  show "set (buckets (rebind now d bn h i b s) ! h) \<subseteq> insert b (set (buckets s ! h))"
    using h i b by (auto simp: rebind_def Let_def)
  show "\<forall>bk \<in> set (buckets (rebind now d bn h i b s)). set bk \<subseteq> \<Union> (set ` set (buckets s))"
  proof (cases "i = h")
    case True
    then show ?thesis by (auto simp: rebind_def Let_def)
  next
    case False
    have mem: "\<And>k x. k < length (buckets s) \<Longrightarrow> x \<in> set (buckets s ! k) \<Longrightarrow>
        x \<in> \<Union> (set ` set (buckets s))"
      by (meson UN_I nth_mem)
    have r: "buckets (rebind now d bn h i b s)
        = (buckets s)[i := remove1 b (buckets s ! i), h := b # buckets s ! h]"
      using False i h by (simp add: rebind_def Let_def)
    show ?thesis
      unfolding r
    proof
      fix bk assume "bk \<in> set ((buckets s)[i := remove1 b (buckets s ! i), h := b # buckets s ! h])"
      then have "bk = b # buckets s ! h \<or> bk = remove1 b (buckets s ! i) \<or> bk \<in> set (buckets s)"
        by (auto dest!: subsetD [OF set_update_subset_insert])
      then show "set bk \<subseteq> \<Union> (set ` set (buckets s))"
      proof (elim disjE)
        assume "bk = b # buckets s ! h"
        then show ?thesis using mem [OF h] mem [OF i b] by auto
      next
        assume "bk = remove1 b (buckets s ! i)"
        then show ?thesis using mem [OF i] by (auto dest: notin_set_remove1 set_remove1_subset [THEN subsetD])
      next
        assume "bk \<in> set (buckets s)"
        then show ?thesis by auto
      qed
    qed
  qed
qed


lemma bget_props:
  assumes wf: "bcache_wf s" and ok: "bget p now d bn s = Inr (s1, b)"
  shows "0 \<le> haskBlock bn \<and> b < length (bufs s) \<and> length (bufs s1) = length (bufs s) \<and>
         bcache_wf s1 \<and> disk s1 = disk s \<and> io_log s1 = io_log s \<and>
         dev (bufs s1 ! b) = d \<and> blockno (bufs s1 ! b) = bn \<and> holder (bufs s1 ! b) = Some p \<and>
         find_cached (bufs s1) d bn (buckets s1 ! nat (haskBlock bn)) = Some b \<and>
         valid (bufs s1 ! b) =
           (case find_cached (bufs s) d bn (buckets s ! nat (haskBlock bn)) of
              Some c \<Rightarrow> valid (bufs s ! b) | None \<Rightarrow> 0)"
proof -
  let ?h = "nat (haskBlock bn)"
  from ok have hash: "0 \<le> haskBlock bn" and hlen: "?h < length (buckets s)"
    by (auto simp: bget_def Let_def split: if_splits)
  have h13: "?h < NBUCKETS"
    using hlen wf by (simp add: bcache_wf_def)
  have len: "length (buckets s) = NBUCKETS"
    using wf by (simp add: bcache_wf_def)
  show ?thesis
  proof (cases "find_cached (bufs s) d bn (buckets s ! ?h)")
    case (Some c)
    with ok hash hlen have hit: "bget_hit p c s = Inr (s1, b)"
      by (simp add: bget_def Let_def)
    from find_cached_Some [OF Some]
    have c: "c \<in> set (buckets s ! ?h)" "dev (bufs s ! c) = d" "blockno (bufs s ! c) = bn"
      by simp_all
    from wf_member [OF wf h13 c(1)] have cl: "c < length (bufs s)" .
    from bget_hit_props [OF cl hit]
    have P: "b = c" "buckets s1 = buckets s" "disk s1 = disk s" "io_log s1 = io_log s"
      "length (bufs s1) = length (bufs s)"
      "\<forall>j. j \<noteq> c \<longrightarrow> bufs s1 ! j = bufs s ! j"
      "bufs s1 ! c = (bufs s ! c)\<lparr>refcnt := refcnt (bufs s ! c) + 1, holder := Some p\<rparr>"
      by simp_all
    have same: "\<forall>x \<in> set (buckets s ! ?h).
        dev (bufs s1 ! x) = dev (bufs s ! x) \<and> blockno (bufs s1 ! x) = blockno (bufs s ! x)"
    proof
      fix x assume "x \<in> set (buckets s ! ?h)"
      show "dev (bufs s1 ! x) = dev (bufs s ! x) \<and> blockno (bufs s1 ! x) = blockno (bufs s ! x)"
        using P(6,7) by (cases "x = c") simp_all
    qed
    have fc: "find_cached (bufs s1) d bn (buckets s1 ! ?h) = Some b"
      using find_cached_same [OF same, of d bn] Some P(1,2) by simp
    have wf1: "bcache_wf s1"
      using wf P(2,5) by (simp add: bcache_wf_def)
    from hash cl P c fc wf1 Some show ?thesis
      by simp
  next
    case None
    obtain m t i where fv: "find_victim s = (m, t, i)"
      by (cases "find_victim s") auto
    with ok None hash hlen have m: "m = Some b"
      by (auto simp: bget_def Let_def split: option.splits sum.splits)
    from find_victim_where [OF fv [unfolded m]]
    have i: "i < NBUCKETS" and bi: "b \<in> set (buckets s ! i)"
      by simp_all
    from wf_member [OF wf i bi] have bl: "b < length (bufs s)" .
    let ?r = "rebind now d bn ?h i b s"
    from ok None hash hlen fv m have acq: "acquiresleep p b ?r = Inr s1"
      by (auto simp: bget_def Let_def split: sum.splits)
    note R = rebind_props [OF bl, of now d bn ?h i]
    have rl: "b < length (bufs ?r)"
      using R bl by simp
    from acq have s1: "s1 = ?r\<lparr>bufs := (bufs ?r)[b := (bufs ?r ! b)\<lparr>holder := Some p\<rparr>]\<rparr>"
      by (auto simp: acquiresleep_def split: if_splits)
    have bk: "buckets s1 = buckets ?r"
      by (simp add: s1)
    have other: "\<forall>j. j \<noteq> b \<longrightarrow> bufs s1 ! j = bufs s ! j"
      using R by (simp add: s1)
    have this_one: "bufs s1 ! b = (bufs s ! b)\<lparr>dev := d, blockno := bn, valid := 0, refcnt := 1,
        ticks := now, holder := Some p\<rparr>"
      using R rl by (simp add: s1)
    have il: "i < length (buckets s)"
      using i len by simp
    note B = rebind_bucket [OF hlen il bi, of now d bn]
    have nomatch: "\<forall>x \<in> set (buckets s1 ! ?h). x \<noteq> b \<longrightarrow>
        \<not> (dev (bufs s1 ! x) = d \<and> blockno (bufs s1 ! x) = bn)"
    proof (intro ballI impI)
      fix x assume x: "x \<in> set (buckets s1 ! ?h)" and nb: "x \<noteq> b"
      with B(2) bk have "x \<in> set (buckets s ! ?h)"
        by auto
      with find_cached_None [OF None] have "\<not> (dev (bufs s ! x) = d \<and> blockno (bufs s ! x) = bn)"
        by blast
      with other nb show "\<not> (dev (bufs s1 ! x) = d \<and> blockno (bufs s1 ! x) = bn)"
        by simp
    qed
    have fc: "find_cached (bufs s1) d bn (buckets s1 ! ?h) = Some b"
      using B(1) nomatch by (intro find_cached_rebound) (simp_all add: bk this_one)
    have wf1: "bcache_wf s1"
      unfolding bcache_wf_def
    proof (intro conjI ballI)
      show "length (buckets s1) = NBUCKETS"
        using R len by (simp add: s1)
    next
      fix bk' x assume "bk' \<in> set (buckets s1)" and "x \<in> set bk'"
      with B(3) bk have "x \<in> \<Union> (set ` set (buckets s))"
        by auto
      with wf have "x < length (bufs s)"
        by (auto simp: bcache_wf_def)
      then show "x < length (bufs s1)"
        using R by (simp add: s1)
    qed
    have misc: "disk s1 = disk s" "io_log s1 = io_log s" "length (bufs s1) = length (bufs s)"
      using R by (simp_all add: s1)
    from hash bl misc wf1 fc None show ?thesis
      by (simp add: this_one)
  qed
qed


lemma bread_props:
  assumes wf: "bcache_wf s" and ok: "bread p now d bn s = Inr (s1, b)"
  shows "bcache_wf s1 \<and> 0 \<le> haskBlock bn \<and> b < length (bufs s1) \<and>
         find_cached (bufs s1) d bn (buckets s1 ! nat (haskBlock bn)) = Some b \<and>
         valid (bufs s1 ! b) \<noteq> 0 \<and> holder (bufs s1 ! b) = Some p \<and>
         blockno (bufs s1 ! b) = bn"
proof -
  from ok obtain s0 where g: "bget p now d bn s = Inr (s0, b)"
    by (auto simp: bread_def Let_def split: sum.splits if_splits)
  note G = bget_props [OF wf g]
  show ?thesis
  proof (cases "valid (bufs s0 ! b) = 0")
    case False
    with ok g have "s1 = s0"
      by (simp add: bread_def)
    with G False show ?thesis
      by simp
  next
    case True
    let ?key = "(dev (bufs s0 ! b), blockno (bufs s0 ! b))"
    from ok g True G have s1: "s1 = s0\<lparr>io_log := io_log s0 @ [DiskRead (dev (bufs s0 ! b)) (blockno (bufs s0 ! b))],
        bufs := (bufs s0)[b := (bufs s0 ! b)\<lparr>data := disk s0 ?key, valid := 1\<rparr>]\<rparr>"
      by (auto simp: bread_def virtio_disk_rw_def Let_def)
    have bl: "b < length (bufs s0)"
      using G by simp
    have same: "\<forall>x \<in> set (buckets s0 ! nat (haskBlock bn)).
        dev (bufs s1 ! x) = dev (bufs s0 ! x) \<and> blockno (bufs s1 ! x) = blockno (bufs s0 ! x)"
    proof
      fix x assume "x \<in> set (buckets s0 ! nat (haskBlock bn))"
      show "dev (bufs s1 ! x) = dev (bufs s0 ! x) \<and> blockno (bufs s1 ! x) = blockno (bufs s0 ! x)"
        using bl by (cases "x = b") (simp_all add: s1)
    qed
    have fc: "find_cached (bufs s1) d bn (buckets s1 ! nat (haskBlock bn)) = Some b"
      using find_cached_same [OF same, of d bn] G by (simp add: s1)
    have "bcache_wf s0"
      using G by simp
    then have wf1: "bcache_wf s1"
      by (simp add: bcache_wf_def s1)
    from G fc wf1 bl show ?thesis
      by (simp add: s1)
  qed
qed

lemma bread_calls:
  assumes wf: "bcache_wf s"
  shows
    "(\<forall>s1 b. bget p now d bn s = Inr (s1, b) \<longrightarrow>
        (valid (bufs s1 ! b) \<noteq> 0 \<longrightarrow> bread p now d bn s = Inr (s1, b)) \<and>
        (valid (bufs s1 ! b) = 0 \<longrightarrow>
           (\<exists>s2. bread p now d bn s = Inr (s2, b) \<and>
                 io_log s2 = io_log s @ [DiskRead d bn] \<and>
                 valid (bufs s2 ! b) = 1 \<and> data (bufs s2 ! b) = disk s (d, bn)))) \<and>
     (\<forall>s1 b s2. bread p now d bn s = Inr (s1, b) \<and> brelse p now' b s1 = Inr s2 \<longrightarrow>
        (\<exists>s3. bread q now'' d bn s2 = Inr (s3, b) \<and> io_log s3 = io_log s1)) \<and>
     (find_cached (bufs s) d bn (buckets s ! nat (haskBlock bn)) = None \<longrightarrow>
        (\<forall>s1 b. bget p now d bn s = Inr (s1, b) \<longrightarrow> valid (bufs s1 ! b) = 0))"
proof (intro conjI allI impI)
  fix s1 b
  assume g: "bget p now d bn s = Inr (s1, b)" and v: "valid (bufs s1 ! b) \<noteq> 0"
  then show "bread p now d bn s = Inr (s1, b)"
    by (simp add: bread_def)
next
  fix s1 b
  assume g: "bget p now d bn s = Inr (s1, b)" and v: "valid (bufs s1 ! b) = 0"
  note G = bget_props [OF wf g]
  let ?s2 = "s1\<lparr>io_log := io_log s1 @ [DiskRead d bn],
        bufs := (bufs s1)[b := (bufs s1 ! b)\<lparr>data := disk s1 (d, bn), valid := 1\<rparr>]\<rparr>"
  have "bread p now d bn s = Inr (?s2, b)"
    using g v G by (simp add: bread_def virtio_disk_rw_def Let_def)
  moreover have "io_log ?s2 = io_log s @ [DiskRead d bn]"
    using G by simp
  moreover have "valid (bufs ?s2 ! b) = 1" "data (bufs ?s2 ! b) = disk s (d, bn)"
    using G by simp_all
  ultimately show "\<exists>s2. bread p now d bn s = Inr (s2, b) \<and>
                 io_log s2 = io_log s @ [DiskRead d bn] \<and>
                 valid (bufs s2 ! b) = 1 \<and> data (bufs s2 ! b) = disk s (d, bn)"
    by blast
next
  fix s1 b s2
  assume a: "bread p now d bn s = Inr (s1, b) \<and> brelse p now' b s1 = Inr s2"
  let ?h = "nat (haskBlock bn)"
  note B = bread_props [OF wf a [THEN conjunct1]]
  have bl: "b < length (bufs s1)" and held: "holdingsleep p b s1"
    and hash: "0 \<le> haskBlock (blockno (bufs s1 ! b))"
    using B by (simp_all add: holdingsleep_def)
  from brelse_result [OF bl held hash, of now'] a
  have s2: "s2 = s1\<lparr>bufs := (bufs s1)[b := (bufs s1 ! b)
            \<lparr>holder := None,
             refcnt := refcnt (bufs s1 ! b) - 1,
             ticks := (if refcnt (bufs s1 ! b) - 1 = 0 then now' else ticks (bufs s1 ! b))\<rparr>]\<rparr>"
    by simp
  have same: "\<forall>x \<in> set (buckets s1 ! ?h).
        dev (bufs s2 ! x) = dev (bufs s1 ! x) \<and> blockno (bufs s2 ! x) = blockno (bufs s1 ! x)"
  proof
    fix x assume "x \<in> set (buckets s1 ! ?h)"
    show "dev (bufs s2 ! x) = dev (bufs s1 ! x) \<and> blockno (bufs s2 ! x) = blockno (bufs s1 ! x)"
      using bl by (cases "x = b") (simp_all add: s2)
  qed
  have fc: "find_cached (bufs s2) d bn (buckets s2 ! ?h) = Some b"
    using find_cached_same [OF same, of d bn] B by (simp add: s2)
  have hl: "0 \<le> haskBlock bn \<and> ?h < length (buckets s2)"
    using B haskBlock_less [of bn] by (simp add: s2 bcache_wf_def nat_less_iff)
  let ?s3 = "s2\<lparr>bufs := (bufs s2)[b := (bufs s2 ! b)\<lparr>refcnt := refcnt (bufs s2 ! b) + 1,
      holder := Some q\<rparr>]\<rparr>"
  have g2: "bget q now'' d bn s2 = Inr (?s3, b)"
    using fc hl bl by (simp add: bget_def bget_hit_def acquiresleep_def Let_def s2)
  have v3: "valid (bufs ?s3 ! b) \<noteq> 0"
    using B bl by (simp add: s2)
  have "bread q now'' d bn s2 = Inr (?s3, b)"
    using g2 v3 by (simp add: bread_def)
  moreover have "io_log ?s3 = io_log s1"
    by (simp add: s2)
  ultimately show "\<exists>s3. bread q now'' d bn s2 = Inr (s3, b) \<and> io_log s3 = io_log s1"
    by blast
next
  fix s1 b
  assume "find_cached (bufs s) d bn (buckets s ! nat (haskBlock bn)) = None"
    and "bget p now d bn s = Inr (s1, b)"
  with bget_props [OF wf] show "valid (bufs s1 ! b) = 0"
    by fastforce
qed



lemma bstep_wf:
  assumes wf: "bcache_wf s" and ok: "bstep op s = Inr s'"
  shows "bcache_wf s' \<and> length (bufs s') = length (bufs s)"
proof (cases op)
  case (Acquire p now d bn)
  with ok obtain b where "bget p now d bn s = Inr (s', b)"
    by (auto simp: bstep_def split: sum.splits)
  from bget_props [OF wf this] show ?thesis
    by simp
next
  case (Release p now b)
  with ok wf show ?thesis
    by (auto simp: bstep_def brelse_def releasesleep_def bcache_wf_def Let_def split: if_splits)
next
  case (Pin b)
  with ok wf show ?thesis
    by (auto simp: bstep_def bpin_def bcache_wf_def Let_def split: if_splits)
next
  case (Unpin b)
  with ok wf show ?thesis
    by (auto simp: bstep_def bunpin_def bcache_wf_def Let_def split: if_splits)
qed





lemmas bcache_run = bstep_def bget_def find_victim_def rebind_def acquiresleep_def
  releasesleep_def brelse_def bpin_def bunpin_def upt_rec less_all_ones



lemma find_cached_other:
  assumes "find_cached bs d bn xs = Some b" and "c \<noteq> b"
    and "\<forall>x. x \<noteq> c \<longrightarrow> bs' ! x = bs ! x"
    and "\<not> (dev (bs' ! c) = d \<and> blockno (bs' ! c) = bn)"
  shows "find_cached bs' d bn xs = Some b"
  using assms by (induction xs) (auto split: if_splits)

lemma find_cached_remove1:
  "find_cached bs d bn xs = Some b \<Longrightarrow> c \<noteq> b \<Longrightarrow> find_cached bs d bn (remove1 c xs) = Some b"
  by (induction xs) (auto split: if_splits)

lemma rebind_first_match:
  assumes fm: "find_cached (bufs s) d bn (buckets s ! h) = Some b"
    and cb: "c \<noteq> b" and key: "\<not> (d' = d \<and> bn' = bn)"
    and h: "h < length (buckets s)" and h': "h' < length (buckets s)"
    and i: "i < length (buckets s)" and c: "c < length (bufs s)"
  shows "find_cached (bufs (rebind now d' bn' h' i c s)) d bn
           (buckets (rebind now d' bn' h' i c s) ! h) = Some b"
proof -
  let ?r = "rebind now d' bn' h' i c s"
  note R = rebind_props [OF c, of now d' bn' h' i]
  have others: "\<forall>x. x \<noteq> c \<longrightarrow> bufs ?r ! x = bufs s ! x"
    using R by simp
  have nomatch: "\<not> (dev (bufs ?r ! c) = d \<and> blockno (bufs ?r ! c) = bn)"
    using R key by auto
  have step: "\<And>xs. find_cached (bufs s) d bn xs = Some b \<Longrightarrow> find_cached (bufs ?r) d bn xs = Some b"
    by (rule find_cached_other [OF _ cb others nomatch])
  show ?thesis
  proof (cases "i = h'")
    case True
    then have "buckets ?r = buckets s"
      by (simp add: rebind_def Let_def)
    with step [OF fm] show ?thesis by simp
  next
    case False
    have r: "buckets ?r = (buckets s)[i := remove1 c (buckets s ! i), h' := c # buckets s ! h']"
      using False i h' by (simp add: rebind_def Let_def)
    show ?thesis
    proof (cases "h = h'")
      case True
      with h have "buckets ?r ! h = c # buckets s ! h"
        using False by (simp add: r)
      moreover have "find_cached (bufs ?r) d bn (c # buckets s ! h) = Some b"
        using nomatch step [OF fm] by auto
      ultimately show ?thesis by simp
    next
      case hh: False
      show ?thesis
      proof (cases "h = i")
        case True
        with hh i have "buckets ?r ! h = remove1 c (buckets s ! h)"
          by (simp add: r)
        with step [OF find_cached_remove1 [OF fm cb]] show ?thesis by simp
      next
        case False
        with hh have "buckets ?r ! h = buckets s ! h"
          by (simp add: r)
        with step [OF fm] show ?thesis by simp
      qed
    qed
  qed
qed

lemma bget_keeps_bound:
  assumes wf: "bcache_wf s" and bd: "bound_to s b d bn"
    and g: "bget p now d' bn' s = Inr (s1, c)"
    and key: "dev (bufs s1 ! b) = dev (bufs s ! b)" "blockno (bufs s1 ! b) = blockno (bufs s ! b)"
  shows "bound_to s1 b d bn \<and> valid (bufs s1 ! b) = valid (bufs s ! b) \<and>
         (c = b) = (d' = d \<and> bn' = bn)"
proof -
  let ?h = "nat (haskBlock bn)" and ?h' = "nat (haskBlock bn')"
  from bd have hash: "0 \<le> haskBlock bn"
    and fm: "find_cached (bufs s) d bn (buckets s ! ?h) = Some b"
    by (simp_all add: bound_to_def)
  from find_cached_Some [OF fm] have bk: "dev (bufs s ! b) = d" "blockno (bufs s ! b) = bn"
    by simp_all
  have len: "length (buckets s) = NBUCKETS"
    using wf by (simp add: bcache_wf_def)
  have hl: "?h < length (buckets s)"
    using bucket_ok [OF wf hash] by simp
  from g have hash': "0 \<le> haskBlock bn'" and hl': "?h' < length (buckets s)"
    by (auto simp: bget_def Let_def split: if_splits)
  note G = bget_props [OF wf g]
  show ?thesis
  proof (cases "find_cached (bufs s) d' bn' (buckets s ! ?h')")
    case (Some c')
    with g hash' hl' have hit: "bget_hit p c' s = Inr (s1, c)"
      by (simp add: bget_def Let_def)
    from find_cached_Some [OF Some]
    have c': "c' \<in> set (buckets s ! ?h')" "dev (bufs s ! c') = d'" "blockno (bufs s ! c') = bn'"
      by simp_all
    from wf_member [OF wf _ c'(1)] hl' len have cl: "c' < length (bufs s)"
      by simp
    from bget_hit_props [OF cl hit]
    have P: "c = c'" "buckets s1 = buckets s"
      "\<forall>j. j \<noteq> c' \<longrightarrow> bufs s1 ! j = bufs s ! j"
      "bufs s1 ! c' = (bufs s ! c')\<lparr>refcnt := refcnt (bufs s ! c') + 1, holder := Some p\<rparr>"
      by simp_all
    have same: "\<forall>x \<in> set (buckets s ! ?h).
        dev (bufs s1 ! x) = dev (bufs s ! x) \<and> blockno (bufs s1 ! x) = blockno (bufs s ! x)"
    proof
      fix x
      show "dev (bufs s1 ! x) = dev (bufs s ! x) \<and> blockno (bufs s1 ! x) = blockno (bufs s ! x)"
        using P(3,4) by (cases "x = c'") simp_all
    qed
    have fc: "find_cached (bufs s1) d bn (buckets s1 ! ?h) = Some b"
      using find_cached_same [OF same, of d bn] fm P(2) by simp
    have v: "valid (bufs s1 ! b) = valid (bufs s ! b)"
      using P(3,4) by (cases "b = c'") simp_all
    have k1: "c = b \<longrightarrow> d' = d \<and> bn' = bn"
    proof
      assume "c = b"
      with P(1) have "c' = b" by simp
      with c'(2,3) bk show "d' = d \<and> bn' = bn" by simp
    qed
    have k2: "d' = d \<and> bn' = bn \<longrightarrow> c = b"
    proof
      assume e: "d' = d \<and> bn' = bn"
      with Some have "find_cached (bufs s) d bn (buckets s ! ?h) = Some c'" by simp
      with fm have "c' = b" by simp
      with P(1) show "c = b" by simp
    qed
    have "bound_to s1 b d bn"
      unfolding bound_to_def using hash fc by (rule conjI)
    moreover from k1 k2 have "(c = b) = (d' = d \<and> bn' = bn)"
      by blast
    ultimately show ?thesis
      using v by (intro conjI)
  next
    case None
    have ne: "\<not> (d' = d \<and> bn' = bn)"
    proof
      assume e: "d' = d \<and> bn' = bn"
      with None have "find_cached (bufs s) d bn (buckets s ! ?h) = None" by simp
      with fm show False by simp
    qed
    obtain m t i where fv: "find_victim s = (m, t, i)"
      by (cases "find_victim s") auto
    with g None hash' hl' have m: "m = Some c"
      by (auto simp: bget_def Let_def split: option.splits sum.splits)
    from find_victim_where [OF fv [unfolded m]]
    have i: "i < NBUCKETS" and ci: "c \<in> set (buckets s ! i)"
      by simp_all
    from wf_member [OF wf i ci] have cl: "c < length (bufs s)" .
    have cb: "c \<noteq> b"
    proof
      assume "c = b"
      with G key bk have "d' = d \<and> bn' = bn" by simp
      with ne show False by simp
    qed
    let ?r = "rebind now d' bn' ?h' i c s"
    from g None hash' hl' fv m have acq: "acquiresleep p c ?r = Inr s1"
      by (auto simp: bget_def Let_def split: sum.splits)
    note R = rebind_props [OF cl, of now d' bn' ?h' i]
    from acq have s1: "s1 = ?r\<lparr>bufs := (bufs ?r)[c := (bufs ?r ! c)\<lparr>holder := Some p\<rparr>]\<rparr>"
      by (auto simp: acquiresleep_def split: if_splits)
    have il: "i < length (buckets s)"
      using i len by simp
    from rebind_first_match [OF fm cb ne hl hl' il cl, of now]
    have fr: "find_cached (bufs ?r) d bn (buckets ?r ! ?h) = Some b" .
    have same: "\<forall>x \<in> set (buckets ?r ! ?h).
        dev (bufs s1 ! x) = dev (bufs ?r ! x) \<and> blockno (bufs s1 ! x) = blockno (bufs ?r ! x)"
    proof
      fix x
      show "dev (bufs s1 ! x) = dev (bufs ?r ! x) \<and> blockno (bufs s1 ! x) = blockno (bufs ?r ! x)"
        using R cl by (cases "x = c") (simp_all add: s1)
    qed
    have fc: "find_cached (bufs s1) d bn (buckets s1 ! ?h) = Some b"
      using find_cached_same [OF same, of d bn] fr by (simp add: s1)
    have v: "valid (bufs s1 ! b) = valid (bufs s ! b)"
      using R cb by (simp add: s1)
    have "bound_to s1 b d bn"
      unfolding bound_to_def using hash fc by (rule conjI)
    moreover from cb ne have "(c = b) = (d' = d \<and> bn' = bn)"
      by blast
    ultimately show ?thesis
      using v by (intro conjI)
  qed
qed


lemma eviction_changes_key:
  assumes wf: "bcache_wf s" and bd: "bound_to s b d bn"
    and miss: "find_cached (bufs s) d' bn' (buckets s ! nat (haskBlock bn')) = None"
    and g: "bget p now d' bn' s = Inr (s1, b)"
  shows "\<not> (dev (bufs s1 ! b) = dev (bufs s ! b) \<and> blockno (bufs s1 ! b) = blockno (bufs s ! b))"
proof
  assume "dev (bufs s1 ! b) = dev (bufs s ! b) \<and> blockno (bufs s1 ! b) = blockno (bufs s ! b)"
  then have key: "dev (bufs s1 ! b) = dev (bufs s ! b)" "blockno (bufs s1 ! b) = blockno (bufs s ! b)"
    by simp_all
  from bget_keeps_bound [OF wf bd g key] have "(b = b) = (d' = d \<and> bn' = bn)"
    by blast
  then have "d' = d" and "bn' = bn"
    by simp_all
  with miss bd show False
    by (simp add: bound_to_def)
qed

lemma reads_of_append:
  "reads_of d bn (log @ [e]) = reads_of d bn log + (if e = DiskRead d bn then 1 else 0)"
  by (simp add: reads_of_def)

lemma bound_to_same_keys:
  assumes "bound_to s b d bn" and "buckets s' = buckets s"
    and "\<forall>x. dev (bufs s' ! x) = dev (bufs s ! x) \<and> blockno (bufs s' ! x) = blockno (bufs s ! x)"
  shows "bound_to s' b d bn"
proof -
  have "find_cached (bufs s') d bn (buckets s ! nat (haskBlock bn))
      = find_cached (bufs s) d bn (buckets s ! nat (haskBlock bn))"
    using assms(3) by (intro find_cached_same) simp
  with assms(1,2) show ?thesis
    by (simp add: bound_to_def)
qed

lemma touch_keeps_binding:
  assumes bd: "bound_to s b d bn" and wf: "bcache_wf s"
    and c: "c < length (bufs s)"
    and s': "s' = s\<lparr>bufs := (bufs s)[c := x]\<rparr>"
    and x: "dev x = dev (bufs s ! c)" "blockno x = blockno (bufs s ! c)" "valid x = valid (bufs s ! c)"
  shows "bcache_wf s' \<and> bound_to s' b d bn \<and>
         reads_of d bn (io_log s') + pending s' b = reads_of d bn (io_log s) + pending s b \<and>
         pending s' b \<le> pending s b"
proof -
  have keys: "\<forall>y. dev (bufs s' ! y) = dev (bufs s ! y) \<and> blockno (bufs s' ! y) = blockno (bufs s ! y)"
  proof
    fix y
    show "dev (bufs s' ! y) = dev (bufs s ! y) \<and> blockno (bufs s' ! y) = blockno (bufs s ! y)"
      using c x by (cases "y = c") (simp_all add: s')
  qed
  have "bound_to s' b d bn"
    using bd _ keys by (rule bound_to_same_keys) (simp add: s')
  moreover have "valid (bufs s' ! b) = valid (bufs s ! b)"
    using c x by (cases "b = c") (simp_all add: s')
  moreover have "bcache_wf s'"
    using wf by (simp add: bcache_wf_def s')
  ultimately show ?thesis
    by (simp add: pending_def s')
qed

lemma bget_binding:
  assumes wf: "bcache_wf s" and bd: "bound_to s b d bn" and g: "bget p now d' bn' s = Inr (s', v)"
    and key: "dev (bufs s' ! b) = dev (bufs s ! b)" "blockno (bufs s' ! b) = blockno (bufs s ! b)"
  shows "bcache_wf s' \<and> bound_to s' b d bn \<and>
         reads_of d bn (io_log s') + pending s' b = reads_of d bn (io_log s) + pending s b \<and>
         pending s' b \<le> pending s b"
proof -
  note K = bget_keeps_bound [OF wf bd g key]
  from K have 1: "bound_to s' b d bn" and 2: "valid (bufs s' ! b) = valid (bufs s ! b)"
    by blast+
  from bget_props [OF wf g] have 3: "bcache_wf s'" and 4: "io_log s' = io_log s"
    by blast+
  from 2 4 have "reads_of d bn (io_log s') + pending s' b = reads_of d bn (io_log s) + pending s b"
    and "pending s' b \<le> pending s b"
    by (simp_all add: pending_def)
  with 1 3 show ?thesis
    by (intro conjI)
qed

lemma bread_binding:
  assumes wf: "bcache_wf s" and bd: "bound_to s b d bn" and r: "bread p now d' bn' s = Inr (s', v)"
    and key: "dev (bufs s' ! b) = dev (bufs s ! b)" "blockno (bufs s' ! b) = blockno (bufs s ! b)"
  shows "bcache_wf s' \<and> bound_to s' b d bn \<and>
         reads_of d bn (io_log s') + pending s' b = reads_of d bn (io_log s) + pending s b \<and>
         pending s' b \<le> pending s b"
proof -
  from r obtain s1 where g: "bget p now d' bn' s = Inr (s1, v)"
    by (auto simp: bread_def Let_def split: sum.splits if_splits)
  note G = bget_props [OF wf g]
  from G have vl: "v < length (bufs s1)" and wf1: "bcache_wf s1"
    and log1: "io_log s1 = io_log s" and dv: "dev (bufs s1 ! v) = d'" "blockno (bufs s1 ! v) = bn'"
    and dk: "disk s1 = disk s"
    by simp_all
  show ?thesis
  proof (cases "valid (bufs s1 ! v) = 0")
    case False
    with r g have "s' = s1"
      by (simp add: bread_def)
    with bget_binding [OF wf bd g] key show ?thesis
      by simp
  next
    case True
    from r g True dv vl have s': "s' = s1\<lparr>io_log := io_log s1 @ [DiskRead d' bn'],
        bufs := (bufs s1)[v := (bufs s1 ! v)\<lparr>data := disk s1 (d', bn'), valid := 1\<rparr>]\<rparr>"
      by (auto simp: bread_def virtio_disk_rw_def Let_def)
    have keys: "\<forall>y. dev (bufs s' ! y) = dev (bufs s1 ! y) \<and> blockno (bufs s' ! y) = blockno (bufs s1 ! y)"
    proof
      fix y
      show "dev (bufs s' ! y) = dev (bufs s1 ! y) \<and> blockno (bufs s' ! y) = blockno (bufs s1 ! y)"
        using vl by (cases "y = v") (simp_all add: s')
    qed
    have key1: "dev (bufs s1 ! b) = dev (bufs s ! b)" "blockno (bufs s1 ! b) = blockno (bufs s ! b)"
      using key keys by simp_all
    note K = bget_keeps_bound [OF wf bd g key1]
    from K have b1: "bound_to s1 b d bn" and v1: "valid (bufs s1 ! b) = valid (bufs s ! b)"
      and iff: "(v = b) = (d' = d \<and> bn' = bn)"
      by blast+
    have b': "bound_to s' b d bn"
      using b1 _ keys by (rule bound_to_same_keys) (simp add: s')
    have wf': "bcache_wf s'"
      using wf1 by (simp add: bcache_wf_def s')
    have count: "reads_of d bn (io_log s') + pending s' b = reads_of d bn (io_log s) + pending s b \<and>
        pending s' b \<le> pending s b"
    proof (cases "v = b")
      case vb: True
      with iff have e: "DiskRead d' bn' = DiskRead d bn"
        by simp
      have p0: "pending s b = 1"
        using v1 True vb by (simp add: pending_def)
      have "valid (bufs s' ! b) = 1"
        using vb vl by (simp add: s')
      then have p1: "pending s' b = 0"
        by (simp add: pending_def)
      have "reads_of d bn (io_log s') = reads_of d bn (io_log s) + 1"
        using e by (simp add: s' reads_of_append log1)
      with p0 p1 show ?thesis
        by simp
    next
      case vb: False
      with iff have ne: "DiskRead d' bn' \<noteq> DiskRead d bn"
        by simp
      have "bufs s' ! b = bufs s1 ! b"
        using vb by (simp add: s')
      with v1 have p: "pending s' b = pending s b"
        by (simp add: pending_def)
      have "reads_of d bn (io_log s') = reads_of d bn (io_log s)"
        using ne by (simp add: s' reads_of_append log1)
      with p show ?thesis
        by simp
    qed
    from wf' b' count show ?thesis
      by simp
  qed
qed

lemma bwrite_binding:
  assumes wf: "bcache_wf s" and bd: "bound_to s b d bn" and ok: "bwrite p v s = Inr s'"
  shows "bcache_wf s' \<and> bound_to s' b d bn \<and>
         reads_of d bn (io_log s') + pending s' b = reads_of d bn (io_log s) + pending s b \<and>
         pending s' b \<le> pending s b"
proof -
  from ok have s': "s' = s\<lparr>disk := (disk s)((dev (bufs s ! v), blockno (bufs s ! v)) := data (bufs s ! v)),
      io_log := io_log s @ [DiskWrite (dev (bufs s ! v)) (blockno (bufs s ! v))]\<rparr>"
    by (auto simp: bwrite_def virtio_disk_rw_def Let_def split: if_splits)
  have "bound_to s' b d bn"
    using bd by (rule bound_to_same_keys) (simp_all add: s')
  moreover have "bcache_wf s'"
    using wf by (simp add: bcache_wf_def s')
  moreover have "reads_of d bn (io_log s') + pending s' b = reads_of d bn (io_log s) + pending s b"
    and "pending s' b \<le> pending s b"
    by (simp_all add: pending_def s' reads_of_append)
  ultimately show ?thesis
    by (intro conjI)
qed

lemma brelse_binding:
  assumes wf: "bcache_wf s" and bd: "bound_to s b d bn" and ok: "brelse p now v s = Inr s'"
  shows "bcache_wf s' \<and> bound_to s' b d bn \<and>
         reads_of d bn (io_log s') + pending s' b = reads_of d bn (io_log s) + pending s b \<and>
         pending s' b \<le> pending s b"
proof -
  from ok have v: "v < length (bufs s)" and held: "holdingsleep p v s"
    by (auto simp: brelse_def split: if_splits)
  from ok v held have hash: "0 \<le> haskBlock (blockno (bufs s ! v))"
    by (auto simp: brelse_def releasesleep_def Let_def split: if_splits)
  from brelse_result [OF v held hash, of now] ok
  have "s' = s\<lparr>bufs := (bufs s)[v := (bufs s ! v)
            \<lparr>holder := None,
             refcnt := refcnt (bufs s ! v) - 1,
             ticks := (if refcnt (bufs s ! v) - 1 = 0 then now else ticks (bufs s ! v))\<rparr>]\<rparr>"
    by simp
  from touch_keeps_binding [OF bd wf v this] show ?thesis
    by simp
qed

lemma bpin_binding:
  assumes wf: "bcache_wf s" and bd: "bound_to s b d bn" and ok: "bpin v s = Inr s'"
  shows "bcache_wf s' \<and> bound_to s' b d bn \<and>
         reads_of d bn (io_log s') + pending s' b = reads_of d bn (io_log s) + pending s b \<and>
         pending s' b \<le> pending s b"
proof -
  from ok have v: "v < length (bufs s)"
    by (auto simp: bpin_def split: if_splits)
  from ok v have "s' = s\<lparr>bufs := (bufs s)[v := (bufs s ! v)\<lparr>refcnt := refcnt (bufs s ! v) + 1\<rparr>]\<rparr>"
    by (auto simp: bpin_def Let_def split: if_splits)
  from touch_keeps_binding [OF bd wf v this] show ?thesis
    by simp
qed

lemma bunpin_binding:
  assumes wf: "bcache_wf s" and bd: "bound_to s b d bn" and ok: "bunpin v s = Inr s'"
  shows "bcache_wf s' \<and> bound_to s' b d bn \<and>
         reads_of d bn (io_log s') + pending s' b = reads_of d bn (io_log s) + pending s b \<and>
         pending s' b \<le> pending s b"
proof -
  from ok have v: "v < length (bufs s)"
    by (auto simp: bunpin_def split: if_splits)
  from ok v have "s' = s\<lparr>bufs := (bufs s)[v := (bufs s ! v)\<lparr>refcnt := refcnt (bufs s ! v) - 1\<rparr>]\<rparr>"
    by (auto simp: bunpin_def Let_def split: if_splits)
  from touch_keeps_binding [OF bd wf v this] show ?thesis
    by simp
qed

lemma cstep_binding:
  assumes wf: "bcache_wf s" and bd: "bound_to s b d bn" and ok: "cstep c s = Inr s'"
    and key: "dev (bufs s' ! b) = dev (bufs s ! b)" "blockno (bufs s' ! b) = blockno (bufs s ! b)"
  shows "bcache_wf s' \<and> bound_to s' b d bn \<and>
         reads_of d bn (io_log s') + pending s' b = reads_of d bn (io_log s) + pending s b \<and>
         pending s' b \<le> pending s b"
proof (cases c)
  case (Bget p now d' bn')
  with ok obtain v where "bget p now d' bn' s = Inr (s', v)"
    by (auto simp: cstep_def split: sum.splits)
  from bget_binding [OF wf bd this key] show ?thesis .
next
  case (Bread p now d' bn')
  with ok obtain v where "bread p now d' bn' s = Inr (s', v)"
    by (auto simp: cstep_def split: sum.splits)
  from bread_binding [OF wf bd this key] show ?thesis .
next
  case (Bwrite p v)
  with ok have "bwrite p v s = Inr s'"
    by (simp add: cstep_def)
  from bwrite_binding [OF wf bd this] show ?thesis .
next
  case (Brelse p now v)
  with ok have "brelse p now v s = Inr s'"
    by (simp add: cstep_def)
  from brelse_binding [OF wf bd this] show ?thesis .
next
  case (Bpin v)
  with ok have "bpin v s = Inr s'"
    by (simp add: cstep_def)
  from bpin_binding [OF wf bd this] show ?thesis .
next
  case (Bunpin v)
  with ok have "bunpin v s = Inr s'"
    by (simp add: cstep_def)
  from bunpin_binding [OF wf bd this] show ?thesis .
qed

lemma crun_binding:
  "bcache_wf s \<Longrightarrow> bound_to s b d bn \<Longrightarrow> crun cs s = Inr s' \<Longrightarrow> stays_bound b cs s \<Longrightarrow>
     bcache_wf s' \<and> bound_to s' b d bn \<and>
     reads_of d bn (io_log s') + pending s' b = reads_of d bn (io_log s) + pending s b \<and>
     pending s' b \<le> pending s b"
proof (induction cs arbitrary: s)
  case Nil
  then show ?case by simp
next
  case (Cons c cs)
  from Cons.prems(3) obtain s1 where step: "cstep c s = Inr s1" and rest: "crun cs s1 = Inr s'"
    by (auto split: sum.splits)
  from Cons.prems(4) step
  have key: "dev (bufs s1 ! b) = dev (bufs s ! b)" "blockno (bufs s1 ! b) = blockno (bufs s ! b)"
    and sb: "stays_bound b cs s1"
    by simp_all
  note S = cstep_binding [OF Cons.prems(1,2) step key]
  from S have wf1: "bcache_wf s1" and b1: "bound_to s1 b d bn"
    by simp_all
  from Cons.IH [OF wf1 b1 rest sb] S show ?case
    by simp
qed



text \<open>
  Claim C10. \<open>bread\<close> asks the device for the block only when the buffer that \<open>bget\<close>
  returns is not valid, and then marks it valid; on a valid buffer it does no I/O. A miss
  rebinds a buffer with the validity flag cleared. Once \<open>bread\<close> has returned buffer
  \<open>b\<close> for a block, no sequence of cache calls during which \<open>b\<close> is not rebound makes
  the device read that block again, and \<open>b\<close> stays valid and stays the buffer found for
  the block (an eviction of \<open>b\<close> always changes its device or block number, lemma
  \<open>eviction_changes_key\<close>, so \<open>stays_bound\<close> says that \<open>b\<close> is not evicted). From the \<open>bget\<close> that binds \<open>b\<close>, the reads of the block so far plus the
  read still owed stay constant: one read per binding, made by the first \<open>bread\<close>.
\<close>

theorem bread_once_per_binding:
  assumes wf: "bcache_wf s"
  shows
    "(\<forall>s1 b. bget p now d bn s = Inr (s1, b) \<longrightarrow>
        (valid (bufs s1 ! b) \<noteq> 0 \<longrightarrow> bread p now d bn s = Inr (s1, b)) \<and>
        (valid (bufs s1 ! b) = 0 \<longrightarrow>
           (\<exists>s2. bread p now d bn s = Inr (s2, b) \<and>
                 io_log s2 = io_log s @ [DiskRead d bn] \<and>
                 valid (bufs s2 ! b) = 1 \<and> data (bufs s2 ! b) = disk s (d, bn)))) \<and>
     (find_cached (bufs s) d bn (buckets s ! nat (haskBlock bn)) = None \<longrightarrow>
        (\<forall>s1 b. bget p now d bn s = Inr (s1, b) \<longrightarrow> valid (bufs s1 ! b) = 0)) \<and>
     (\<forall>s1 b cs s'.
        bread p now d bn s = Inr (s1, b) \<and> crun cs s1 = Inr s' \<and> stays_bound b cs s1 \<longrightarrow>
          bound_to s' b d bn \<and> valid (bufs s' ! b) \<noteq> 0 \<and>
          reads_of d bn (io_log s') = reads_of d bn (io_log s1)) \<and>
     (\<forall>s1 b cs s'.
        bget p now d bn s = Inr (s1, b) \<and> crun cs s1 = Inr s' \<and> stays_bound b cs s1 \<longrightarrow>
          bound_to s' b d bn \<and>
          reads_of d bn (io_log s') + pending s' b = reads_of d bn (io_log s) + pending s1 b)"
proof (intro conjI allI impI)
  fix s1 b
  assume "bget p now d bn s = Inr (s1, b)" and "valid (bufs s1 ! b) \<noteq> 0"
  with bread_calls [OF wf, of p now d bn] show "bread p now d bn s = Inr (s1, b)"
    by blast
next
  fix s1 b
  assume "bget p now d bn s = Inr (s1, b)" and "valid (bufs s1 ! b) = 0"
  with bread_calls [OF wf, of p now d bn]
  show "\<exists>s2. bread p now d bn s = Inr (s2, b) \<and>
                 io_log s2 = io_log s @ [DiskRead d bn] \<and>
                 valid (bufs s2 ! b) = 1 \<and> data (bufs s2 ! b) = disk s (d, bn)"
    by blast
next
  fix s1 b
  assume "find_cached (bufs s) d bn (buckets s ! nat (haskBlock bn)) = None"
    and "bget p now d bn s = Inr (s1, b)"
  with bget_props [OF wf] show "valid (bufs s1 ! b) = 0"
    by fastforce
next
  fix s1 b cs s'
  assume a: "bread p now d bn s = Inr (s1, b) \<and> crun cs s1 = Inr s' \<and> stays_bound b cs s1"
  from bread_props [OF wf a [THEN conjunct1]]
  have wf1: "bcache_wf s1" and b1: "bound_to s1 b d bn" and v1: "valid (bufs s1 ! b) \<noteq> 0"
    by (simp_all add: bound_to_def)
  from a have run: "crun cs s1 = Inr s'" and sb: "stays_bound b cs s1"
    by simp_all
  from crun_binding [OF wf1 b1 run sb]
  have b': "bound_to s' b d bn"
    and q: "reads_of d bn (io_log s') + pending s' b = reads_of d bn (io_log s1) + pending s1 b"
    and le: "pending s' b \<le> pending s1 b"
    by simp_all
  from v1 have "pending s1 b = 0"
    by (simp add: pending_def)
  with q le have "pending s' b = 0" and r: "reads_of d bn (io_log s') = reads_of d bn (io_log s1)"
    by simp_all
  then have "valid (bufs s' ! b) \<noteq> 0"
    by (simp add: pending_def split: if_splits)
  with b' r show "bound_to s' b d bn" and "valid (bufs s' ! b) \<noteq> 0"
    and "reads_of d bn (io_log s') = reads_of d bn (io_log s1)"
    by simp_all
next
  fix s1 b cs s'
  assume a: "bget p now d bn s = Inr (s1, b) \<and> crun cs s1 = Inr s' \<and> stays_bound b cs s1"
  from bget_props [OF wf a [THEN conjunct1]]
  have wf1: "bcache_wf s1" and b1: "bound_to s1 b d bn" and log: "io_log s1 = io_log s"
    by (simp_all add: bound_to_def)
  from a have run: "crun cs s1 = Inr s'" and sb: "stays_bound b cs s1"
    by simp_all
  from crun_binding [OF wf1 b1 run sb] log
  show "bound_to s' b d bn"
    and "reads_of d bn (io_log s') + pending s' b = reads_of d bn (io_log s) + pending s1 b"
    by simp_all
qed

theorem bread_once_per_binding_witness:
  "bcache_wf cache2 \<and>
   bread 7 5 1 1 cache2 = Inr (cache2_loaded, 1) \<and>
   crun [Brelse 7 6 1, Bread 8 7 1 1, Bpin 1, Bwrite 8 1, Brelse 8 8 1, Bget 9 9 1 14, Bunpin 1]
     cache2_loaded = Inr cache2_busy \<and>
   stays_bound 1 [Brelse 7 6 1, Bread 8 7 1 1, Bpin 1, Bwrite 8 1, Brelse 8 8 1, Bget 9 9 1 14,
     Bunpin 1] cache2_loaded \<and>
   bound_to cache2_busy 1 1 1 \<and>
   valid (bufs cache2_busy ! 1) = 1 \<and>
   reads_of 1 1 (io_log cache2_busy) = reads_of 1 1 (io_log cache2_loaded) \<and>
   reads_of 1 1 (io_log cache2_busy) = 1"
proof -
  let ?cs = "[Brelse 7 6 1, Bread 8 7 1 1, Bpin 1, Bwrite 8 1, Brelse 8 8 1, Bget 9 9 1 14, Bunpin 1]"
  have w: "bcache_wf cache2"
    by (simp add: bcache_wf_def bcache_eval)
  have r: "bread 7 5 1 1 cache2 = Inr (cache2_loaded, 1)"
    by (simp add: bcache_eval cache2_loaded_def bread_def virtio_disk_rw_def bget_def
        find_victim_def rebind_def acquiresleep_def upt_rec less_all_ones blank_disk_def)
  have run: "crun ?cs cache2_loaded = Inr cache2_busy"
    by (simp add: bcache_eval bcache_run cstep_def bread_def bwrite_def virtio_disk_rw_def
        bget_hit_def cache2_loaded_def cache2_busy_def)
  have sb: "stays_bound 1 ?cs cache2_loaded"
    by (simp add: bcache_eval bcache_run cstep_def bread_def bwrite_def virtio_disk_rw_def
        bget_hit_def cache2_loaded_def)
  from bread_once_per_binding [OF w, of 7 5 1 1, THEN conjunct2, THEN conjunct2, THEN conjunct1,
      rule_format, OF conjI [OF r conjI [OF run sb]]]
  have "bound_to cache2_busy 1 1 1" and "valid (bufs cache2_busy ! 1) \<noteq> 0"
    and "reads_of 1 1 (io_log cache2_busy) = reads_of 1 1 (io_log cache2_loaded)"
    by simp_all
  with w r run sb show ?thesis
    by (simp add: cache2_busy_def cache2_loaded_def reads_of_def)
qed

lemma lru_first_None: "lru_first bs xs = None \<longleftrightarrow> (\<forall>x \<in> set xs. refcnt (bs ! x) \<noteq> 0)"
  by (induction xs) (auto split: option.splits)

lemma lru_first_Some:
  "lru_first bs xs = Some v \<Longrightarrow>
     refcnt (bs ! v) = 0 \<and>
     (\<forall>x \<in> set xs. refcnt (bs ! x) = 0 \<longrightarrow> ticks (bs ! v) \<le> ticks (bs ! x)) \<and>
     (\<exists>ys zs. xs = ys @ v # zs \<and>
        (\<forall>y \<in> set ys. refcnt (bs ! y) = 0 \<longrightarrow> ticks (bs ! v) < ticks (bs ! y)))"
proof (induction xs arbitrary: v)
  case Nil
  then show ?case by simp
next
  case (Cons x xs)
  show ?case
  proof (cases "lru_first bs xs")
    case None
    with Cons.prems have v: "v = x" "refcnt (bs ! x) = 0"
      by (auto split: if_splits)
    from None have "\<forall>y \<in> set xs. refcnt (bs ! y) \<noteq> 0"
      by (simp add: lru_first_None)
    with v have "\<forall>y \<in> set (x # xs). refcnt (bs ! y) = 0 \<longrightarrow> ticks (bs ! x) \<le> ticks (bs ! y)"
      by auto
    moreover have "x # xs = [] @ x # xs"
      by simp
    moreover have "\<forall>y \<in> set []. refcnt (bs ! y) = 0 \<longrightarrow> ticks (bs ! x) < ticks (bs ! y)"
      by simp
    ultimately show ?thesis
      unfolding v(1) using v(2) by blast
  next
    case (Some w)
    note IH = Cons.IH [OF Some]
    show ?thesis
    proof (cases "refcnt (bs ! x) = 0 \<and> ticks (bs ! x) \<le> ticks (bs ! w)")
      case True
      with Cons.prems Some have v: "v = x"
        by simp
      have "\<forall>y \<in> set (x # xs). refcnt (bs ! y) = 0 \<longrightarrow> ticks (bs ! x) \<le> ticks (bs ! y)"
        using IH True by auto
      moreover have "x # xs = [] @ x # xs"
        by simp
      moreover have "\<forall>y \<in> set []. refcnt (bs ! y) = 0 \<longrightarrow> ticks (bs ! x) < ticks (bs ! y)"
        by simp
      ultimately show ?thesis
        unfolding v using True by blast
    next
      case False
      with Cons.prems Some have v: "v = w"
        by (auto split: if_splits)
      from IH obtain ys zs where split: "xs = ys @ w # zs"
        "\<forall>y \<in> set ys. refcnt (bs ! y) = 0 \<longrightarrow> ticks (bs ! w) < ticks (bs ! y)"
        by blast
      have "x # xs = (x # ys) @ w # zs"
        using split by simp
      moreover have "\<forall>y \<in> set (x # ys). refcnt (bs ! y) = 0 \<longrightarrow> ticks (bs ! w) < ticks (bs ! y)"
        using split False by auto
      moreover have "\<forall>y \<in> set (x # xs). refcnt (bs ! y) = 0 \<longrightarrow> ticks (bs ! w) \<le> ticks (bs ! y)"
        using IH False by auto
      ultimately show ?thesis
        using IH v by blast
    qed
  qed
qed

lemma scan_bucket_lru:
  "scan_bucket bs i xs (m, t, k) = (m', t', k') \<Longrightarrow>
     (m', t') =
       (case lru_first bs xs of
          None \<Rightarrow> (m, t)
        | Some v \<Rightarrow> if ticks (bs ! v) < t then (Some v, ticks (bs ! v)) else (m, t))"
proof (induction xs arbitrary: m t k)
  case Nil
  then show ?case by simp
next
  case (Cons x xs)
  show ?case
  proof (cases "refcnt (bs ! x) = 0 \<and> ticks (bs ! x) < t")
    case True
    with Cons.prems have "scan_bucket bs i xs (Some x, ticks (bs ! x), i) = (m', t', k')"
      by simp
    from Cons.IH [OF this] True show ?thesis
      by (auto split: option.splits if_splits)
  next
    case False
    with Cons.prems have "scan_bucket bs i xs (m, t, k) = (m', t', k')"
      by auto
    from Cons.IH [OF this] False show ?thesis
      by (auto split: option.splits if_splits)
  qed
qed


lemma scan_bucket_append:
  "scan_bucket bs i (xs @ ys) acc = scan_bucket bs i ys (scan_bucket bs i xs acc)"
  by (induction bs i xs acc rule: scan_bucket.induct) auto

lemma scan_bucket_id:
  "(fst (scan_bucket bs i xs (m, t, k)), fst (snd (scan_bucket bs i xs (m, t, k)))) =
   (fst (scan_bucket bs j xs (m, t, k')), fst (snd (scan_bucket bs j xs (m, t, k'))))"
  by (induction xs arbitrary: m t k k') auto

lemma scan_buckets_flat:
  "(fst (scan_buckets bs bks ids (m, t, k)), fst (snd (scan_buckets bs bks ids (m, t, k)))) =
   (fst (scan_bucket bs 0 (concat (map (\<lambda>i. bks ! i) ids)) (m, t, k)),
    fst (snd (scan_bucket bs 0 (concat (map (\<lambda>i. bks ! i) ids)) (m, t, k))))"
proof (induction ids arbitrary: m t k)
  case Nil
  then show ?case by simp
next
  case (Cons i ids)
  obtain m1 t1 k1 where a: "scan_bucket bs i (bks ! i) (m, t, k) = (m1, t1, k1)"
    by (cases "scan_bucket bs i (bks ! i) (m, t, k)") auto
  obtain m2 t2 k2 where b: "scan_bucket bs 0 (bks ! i) (m, t, k) = (m2, t2, k2)"
    by (cases "scan_bucket bs 0 (bks ! i) (m, t, k)") auto
  from scan_bucket_id [of bs i "bks ! i" m t k 0 k] a b have e: "m2 = m1" "t2 = t1"
    by simp_all
  have "(fst (scan_buckets bs bks ids (m1, t1, k1)), fst (snd (scan_buckets bs bks ids (m1, t1, k1))))
      = (fst (scan_bucket bs 0 (concat (map (\<lambda>i. bks ! i) ids)) (m1, t1, k1)),
         fst (snd (scan_bucket bs 0 (concat (map (\<lambda>i. bks ! i) ids)) (m1, t1, k1))))"
    by (rule Cons.IH)
  also have "\<dots> = (fst (scan_bucket bs 0 (concat (map (\<lambda>i. bks ! i) ids)) (m1, t1, k2)),
         fst (snd (scan_bucket bs 0 (concat (map (\<lambda>i. bks ! i) ids)) (m1, t1, k2))))"
    by (rule scan_bucket_id)
  finally show ?case
    by (simp add: a b e scan_bucket_append)
qed

lemma find_victim_lru:
  "fst (find_victim s) =
     (case lru_first (bufs s) (scan_order s) of
        None \<Rightarrow> None
      | Some v \<Rightarrow> if ticks (bufs s ! v) < - 1 then Some v else None)"
proof -
  obtain m t k where r: "scan_bucket (bufs s) 0 (scan_order s) (None, - 1, 0) = (m, t, k)"
    by (cases "scan_bucket (bufs s) 0 (scan_order s) (None, - 1, 0)") auto
  from scan_buckets_flat [of "bufs s" "buckets s" "[0..<NBUCKETS]" None "NOT 0" 0]
  have "fst (find_victim s) = m"
    using r by (simp add: find_victim_def scan_order_def)
  moreover from scan_bucket_lru [OF r]
  have "m = (case lru_first (bufs s) (scan_order s) of
        None \<Rightarrow> None
      | Some v \<Rightarrow> if ticks (bufs s ! v) < - 1 then Some v else None)"
    by (auto split: option.splits if_splits)
  ultimately show ?thesis
    by simp
qed

lemma bget_evicts_lru:
  assumes wf: "bcache_wf s" and hash: "0 \<le> haskBlock bn"
    and miss: "find_cached (bufs s) d bn (buckets s ! nat (haskBlock bn)) = None"
    and lru: "lru_first (bufs s) (scan_order s) = Some v"
    and fresh: "ticks (bufs s ! v) \<noteq> - 1"
    and unlocked: "holder (bufs s ! v) = None"
  shows "\<exists>s'. bget p now d bn s = Inr (s', v)"
proof -
  obtain m t i where fv: "find_victim s = (m, t, i)"
    by (cases "find_victim s") auto
  from find_victim_lru [of s] lru fresh fv have m: "m = Some v"
    by (simp add: less_all_ones)
  from find_victim_where [OF fv [unfolded m]]
  have i: "i < NBUCKETS" and vi: "v \<in> set (buckets s ! i)"
    by simp_all
  from wf_member [OF wf i vi] have vl: "v < length (bufs s)" .
  note R = rebind_props [OF vl, of now d bn "nat (haskBlock bn)" i]
  have "holder (bufs (rebind now d bn (nat (haskBlock bn)) i v s) ! v) = None"
    using R unlocked by simp
  then obtain s' where "acquiresleep p v (rebind now d bn (nat (haskBlock bn)) i v s) = Inr s'"
    by (simp add: acquiresleep_def)
  with miss fv m bucket_ok [OF wf hash] show ?thesis
    by (simp add: bget_def Let_def)
qed

lemma in_scan_order: "j \<in> set (scan_order s) \<longleftrightarrow> (\<exists>i < NBUCKETS. j \<in> set (buckets s ! i))"
  by (auto simp: scan_order_def)

lemma rebind_keeps_linked:
  assumes h: "h < length (buckets s)" and i: "i < length (buckets s)"
    and b: "b \<in> set (buckets s ! i)"
    and j: "k < length (buckets s)" "j \<in> set (buckets s ! k)"
  shows "\<exists>k' < length (buckets s). j \<in> set (buckets (rebind now d bn h i b s) ! k')"
proof (cases "i = h")
  case True
  with j show ?thesis
    by (auto simp: rebind_def Let_def)
next
  case False
  have r: "buckets (rebind now d bn h i b s)
        = (buckets s)[i := remove1 b (buckets s ! i), h := b # buckets s ! h]"
    using False i h by (simp add: rebind_def Let_def)
  show ?thesis
  proof (cases "j = b")
    case True
    with h show ?thesis
      unfolding r by (intro exI [of _ h]) simp
  next
    case nb: False
    show ?thesis
    proof (cases "k = h")
      case True
      with h j show ?thesis
        unfolding r by (intro exI [of _ h]) simp
    next
      case kh: False
      show ?thesis
      proof (cases "k = i")
        case True
        with i j nb kh False show ?thesis
          unfolding r by (intro exI [of _ i]) simp
      next
        case False
        with j kh show ?thesis
          unfolding r by (intro exI [of _ k]) simp
      qed
    qed
  qed
qed

lemma bstep_pool_linked:
  assumes wf: "bcache_wf s" and inv: "pool_linked s" and ok: "bstep op s = Inr s'"
  shows "pool_linked s'"
proof (cases op)
  case (Acquire p now d bn)
  with ok obtain b where g: "bget p now d bn s = Inr (s', b)"
    by (auto simp: bstep_def split: sum.splits)
  let ?h = "nat (haskBlock bn)"
  have len: "length (buckets s) = NBUCKETS"
    using wf by (simp add: bcache_wf_def)
  from g have hash: "0 \<le> haskBlock bn" and hlen: "?h < length (buckets s)"
    by (auto simp: bget_def Let_def split: if_splits)
  note G = bget_props [OF wf g]
  show ?thesis
  proof (cases "find_cached (bufs s) d bn (buckets s ! ?h)")
    case (Some c)
    with g hash hlen have hit: "bget_hit p c s = Inr (s', b)"
      by (simp add: bget_def Let_def)
    from find_cached_Some [OF Some] have "c \<in> set (buckets s ! ?h)"
      by simp
    from wf_member [OF wf _ this] hlen len have cl: "c < length (bufs s)"
      by simp
    from bget_hit_props [OF cl hit] inv show ?thesis
      by (simp add: pool_linked_def in_scan_order)
  next
    case None
    obtain m t i where fv: "find_victim s = (m, t, i)"
      by (cases "find_victim s") auto
    with g None hash hlen have m: "m = Some b"
      by (auto simp: bget_def Let_def split: option.splits sum.splits)
    from find_victim_where [OF fv [unfolded m]]
    have i: "i < NBUCKETS" and bi: "b \<in> set (buckets s ! i)"
      by simp_all
    have il: "i < length (buckets s)"
      using i len by simp
    let ?r = "rebind now d bn ?h i b s"
    from g None hash hlen fv m have acq: "acquiresleep p b ?r = Inr s'"
      by (auto simp: bget_def Let_def split: sum.splits)
    then have bk: "buckets s' = buckets ?r"
      by (auto simp: acquiresleep_def split: if_splits)
    show ?thesis
      unfolding pool_linked_def in_scan_order
    proof (intro allI impI)
      fix j assume "j < length (bufs s')"
      with G have "j < length (bufs s)"
        by simp
      with inv obtain k where k: "k < NBUCKETS" "j \<in> set (buckets s ! k)"
        by (auto simp: pool_linked_def in_scan_order)
      from rebind_keeps_linked [OF hlen il bi _ k(2), of now d bn] k(1) len
      show "\<exists>i < NBUCKETS. j \<in> set (buckets s' ! i)"
        by (simp add: bk)
    qed
  qed
next
  case (Release p now b)
  with ok inv show ?thesis
    by (auto simp: bstep_def brelse_def releasesleep_def pool_linked_def in_scan_order Let_def
        split: if_splits)
next
  case (Pin b)
  with ok inv show ?thesis
    by (auto simp: bstep_def bpin_def pool_linked_def in_scan_order Let_def split: if_splits)
next
  case (Unpin b)
  with ok inv show ?thesis
    by (auto simp: bstep_def bunpin_def pool_linked_def in_scan_order Let_def split: if_splits)
qed

lemma brun_pool_linked:
  "bcache_wf s \<Longrightarrow> pool_linked s \<Longrightarrow> brun ops s = Inr s' \<Longrightarrow> bcache_wf s' \<and> pool_linked s'"
proof (induction ops arbitrary: s)
  case Nil
  then show ?case by simp
next
  case (Cons op ops)
  from Cons.prems(3) obtain s1 where step: "bstep op s = Inr s1" and rest: "brun ops s1 = Inr s'"
    by (auto split: sum.splits)
  from bstep_wf [OF Cons.prems(1) step] have wf1: "bcache_wf s1"
    by simp
  from bstep_pool_linked [OF Cons.prems(1,2) step] have "pool_linked s1" .
  from Cons.IH [OF wf1 this rest] show ?case .
qed

lemma binit_pool_linked:
  assumes "binit now (bcache0 n z dk) = Inr s0" and "brun ops s0 = Inr s"
  shows "bcache_wf s \<and> (\<forall>j < length (bufs s). j \<in> set (scan_order s))"
proof -
  from assms(1) binit_zero_pool [of now n z dk]
  have s0: "s0 = \<lparr>bufs = replicate n ((buf0 z)\<lparr>ticks := now\<rparr>),
          buckets = rev [0..<n] # replicate (NBUCKETS - 1) [],
          disk = dk, io_log = []\<rparr>"
    by simp
  have wf: "bcache_wf s0"
    by (auto simp: bcache_wf_def s0 NBUCKETS_def)
  have "pool_linked s0"
    unfolding pool_linked_def in_scan_order
    by (auto simp: s0 NBUCKETS_def intro!: exI [of _ 0])
  from brun_pool_linked [OF wf this assms(2)] show ?thesis
    by (simp add: pool_linked_def)
qed

text \<open>
  Claim C1. The victim search picks the buffer that the specification asks for, except
  when that buffer's timestamp is \<open>0xFFFFFFFF\<close>, the initial value \<open>~0\<close> of
  \<open>minTicks\<close> (lemma \<open>find_victim_lru\<close>). Here both buffers have count 0 and were last
  used during tick \<open>0xFFFFFFFF\<close>: the specification's victim is buffer 1, and \<open>bget\<close>
  for a block that is not cached panics with "bget: no buffers".
\<close>

theorem bget_stale_timestamp_panics:
  "brun [Acquire 7 (- 1) 1 1, Release 7 (- 1) 1, Acquire 7 (- 1) 1 2, Release 7 (- 1) 0] cache2
     = Inr cache2_stale \<and>
   refcnt (bufs cache2_stale ! 0) = 0 \<and> refcnt (bufs cache2_stale ! 1) = 0 \<and>
   lru_first (bufs cache2_stale) (scan_order cache2_stale) = Some 1 \<and>
   bget 7 0 1 3 cache2_stale = Inl (Panic ''bget: no buffers'')"
  by (simp add: bcache_eval bcache_run cache2_stale_def scan_order_def)

end
